theory Spec2Isabelle
  imports Main
begin

section \<open>Bulk push rule evaluation (synapse/push/bulk\_push\_rule\_evaluator.py)\<close>

subsection \<open>Data model\<close>

type_synonym uid = string

text \<open>
  A condition is a JSON object. The only key this module reads is \<open>_id\<close>
  (\<open>cond.get("_id", None)\<close>); everything else is handed to the external evaluator
  unread, and is kept here as a kind plus its parameters.
\<close>

record cond =
  cond_id :: "string option"
  kind :: string
  params :: "(string \<times> string) list"

text \<open>
  An action is a JSON string (\<open>notify\<close>, \<open>dont_notify\<close>, ...) or a JSON object
  (a tweak). The module only compares actions with the string \<open>'dont_notify'\<close>.
\<close>

datatype action = ActStr string | ActObj "(string \<times> string) list"

text \<open>
  A stored rule row carries its condition list and its action list as JSON text;
  \<open>decode_rule_json\<close> replaces both by the decoded values and leaves the other keys
  alone. The key \<open>enabled\<close> may be absent.
\<close>

record rule_row =
  row_rule_id :: string
  row_priority_class :: int
  row_enabled :: "bool option"
  row_conditions :: string
  row_actions :: string

record rule =
  rule_id :: string
  priority_class :: int
  enabled :: "bool option"
  conditions :: "cond list"
  actions :: "action list"

record event =
  event_id :: string
  etype :: string
  state_key :: string
  content :: "(string \<times> string) list"

text \<open>
  Every exception the module can let through: a failure of a collaborator (storage,
  visibility filter, condition evaluator), a failure of \<open>json.loads\<close>, and the
  \<open>KeyError\<close> of a subscript on a dict that lacks the key.
\<close>

datatype error =
  StorageError string
  | FilterError string
  | EvaluatorError string
  | DecodeError string
  | KeyError string

subsection \<open>The condition evaluator\<close>

text \<open>
  \<open>PushRuleEvaluatorForEvent\<close> is imported from a module that is not part of the
  source at hand, so its method \<open>matches(cond, uid, display_name, None)\<close> is a parameter:
  a function that answers with a boolean or raises. The fourth argument is always
  \<open>None\<close> and is left out.
\<close>

type_synonym evaluator = "cond \<Rightarrow> uid \<Rightarrow> string option \<Rightarrow> error + bool"

subsection \<open>Collaborators and the evaluator object\<close>

text \<open>
  The storage object. Each method is a deferred in the source; its failure is an
  exception at the \<open>yield\<close>, here the \<open>Inl\<close> of the result.
  \<open>get_state_for_event\<close> returns a dict of which only \<open>.values()\<close> is read, so the
  model keeps the list of values.
\<close>

record store =
  bulk_get_push_rules :: "uid list \<Rightarrow> error + (uid \<rightharpoonup> rule_row list)"
  get_users_in_room :: "string \<Rightarrow> error + uid list"
  are_guests :: "uid list \<Rightarrow> error + (uid \<times> bool) list"
  get_state_for_event :: "string \<Rightarrow> error + event list"

text \<open>
  \<open>handler._filter_events_for_clients(user_tuples, events)\<close>: the visibility filter,
  which answers with a dict from user id to the events that user may see, or fails.
\<close>

type_synonym handler = "(uid \<times> bool) list \<Rightarrow> event list \<Rightarrow> error + (uid \<rightharpoonup> event list)"

text \<open>
  What the module imports from elsewhere and the source at hand does not contain, taken
  as parameters: the constructor \<open>PushRuleEvaluatorForEvent(event, member_count)\<close>, the
  constant \<open>EventTypes.Member\<close>, \<open>baserules.list_with_base_rules\<close>, and \<open>json.loads\<close>
  (once for the text of a condition list and once for the text of an action list, each
  answering with the decoded list or raising).
\<close>

record externals =
  PushRuleEvaluatorForEvent :: "event \<Rightarrow> nat \<Rightarrow> evaluator"
  EventTypes_Member :: string
  list_with_base_rules :: "rule list \<Rightarrow> rule list"
  loads_conditions :: "string \<Rightarrow> error + cond list"
  loads_actions :: "string \<Rightarrow> error + action list"

text \<open>
  The fields of a \<open>BulkPushRuleEvaluator\<close>. \<open>rules_by_user\<close> is a dict; the model keeps
  its items in the order \<open>.items()\<close> yields them, so the keys of the list are distinct.
\<close>

record bulk_evaluator =
  room_id :: string
  rules_by_user :: "(uid \<times> rule list) list"
  users_in_room :: "uid list"
  store :: store

text \<open>
  The mutable state in scope while \<open>action_for_event_by_user\<close> runs: the evaluator
  object \<open>self\<close>, the local dicts \<open>actions_by_user\<close> and \<open>condition_cache\<close> (called
  \<open>cache\<close> in \<open>_condition_checker\<close>, which shares it across all users and rules), and
  \<open>calls\<close>, an instrumentation log of the invocations of \<open>evaluator.matches\<close> in the
  order they are made (the log is not a variable of the source; it is what a counting
  test double of the evaluator would record). Every function below takes the state
  and returns it updated, together with its result or the exception it raised.
\<close>

record pstate =
  self :: bulk_evaluator
  actions_by_user :: "uid \<rightharpoonup> action list"
  cache :: "string \<rightharpoonup> bool"
  calls :: "(cond \<times> uid \<times> string option) list"

subsection \<open>Condition matching\<close>

text \<open>
  \<open>_id = cond.get("_id", None)\<close> followed by the guard \<open>if _id:\<close>: an absent identifier
  and the empty string are both falsy, so neither is a cache key.
\<close>

definition cache_id :: "cond \<Rightarrow> string option" where
  "cache_id c = (case cond_id c of None \<Rightarrow> None | Some s \<Rightarrow> if s = [] then None else Some s)"

text \<open>\<open>res = cache.get(_id, None)\<close> under the guard \<open>if _id:\<close>.\<close>

definition cache_get :: "pstate \<Rightarrow> cond \<Rightarrow> bool option" where
  "cache_get st c = (case cache_id c of None \<Rightarrow> None | Some s \<Rightarrow> cache st s)"

text \<open>\<open>if _id: cache[_id] = res\<close>.\<close>

definition cache_put :: "cond \<Rightarrow> bool \<Rightarrow> pstate \<Rightarrow> pstate" where
  "cache_put c res st = (case cache_id c of None \<Rightarrow> st | Some s \<Rightarrow> st\<lparr>cache := (cache st)(s \<mapsto> res)\<rparr>)"

definition log_call :: "cond \<Rightarrow> uid \<Rightarrow> string option \<Rightarrow> pstate \<Rightarrow> pstate" where
  "log_call c u dn st = st\<lparr>calls := calls st @ [(c, u, dn)]\<rparr>"

text \<open>
  \<^verbatim>\<open>
  def _condition_checker(evaluator, conditions, uid, display_name, cache):
      for cond in conditions:
          _id = cond.get("_id", None)
          if _id:
              res = cache.get(_id, None)
              if res is False:
                  break
              elif res is True:
                  continue

          res = evaluator.matches(cond, uid, display_name, None)
          if _id:
              cache[_id] = res

          if res is False:
              return False

      return True
  \<close>
  The \<open>break\<close> on a cached \<open>False\<close> leaves the loop and reaches the final
  \<open>return True\<close>. An exception of the evaluator leaves the function at once; the state
  reached so far stays as it is.
\<close>

fun condition_checker ::
  "evaluator \<Rightarrow> cond list \<Rightarrow> uid \<Rightarrow> string option \<Rightarrow> pstate \<Rightarrow> (error + bool) \<times> pstate"
where
  "condition_checker ev [] u dn st = (Inr True, st)"
| "condition_checker ev (c # cs) u dn st =
     (case cache_get st c of
        Some False \<Rightarrow> (Inr True, st)
      | Some True \<Rightarrow> condition_checker ev cs u dn st
      | None \<Rightarrow>
          (case ev c u dn of
             Inl e \<Rightarrow> (Inl e, log_call c u dn st)
           | Inr res \<Rightarrow>
               (let st' = cache_put c res (log_call c u dn st)
                in if res = False then (Inr False, st')
                   else condition_checker ev cs u dn st')))"

subsection \<open>The bulk evaluator\<close>

text \<open>\<open>'enabled' in rule and not rule['enabled']\<close>.\<close>

definition rule_disabled :: "rule \<Rightarrow> bool" where
  "rule_disabled r = (case enabled r of None \<Rightarrow> False | Some b \<Rightarrow> \<not> b)"

text \<open>\<open>actions = [x for x in rule['actions'] if x != 'dont_notify']\<close>.\<close>

definition strip_dont_notify :: "action list \<Rightarrow> action list" where
  "strip_dont_notify acts = filter (\<lambda>x. x \<noteq> ActStr ''dont_notify'') acts"

text \<open>\<open>if actions: actions_by_user[uid] = actions\<close>.\<close>

definition record_actions :: "uid \<Rightarrow> action list \<Rightarrow> pstate \<Rightarrow> pstate" where
  "record_actions u acts st =
     (if acts \<noteq> [] then st\<lparr>actions_by_user := (actions_by_user st)(u \<mapsto> acts)\<rparr> else st)"

text \<open>
  The inner loop of \<open>action_for_event_by_user\<close>:
  \<^verbatim>\<open>
  for rule in rules:
      if 'enabled' in rule and not rule['enabled']:
          continue
      matches = _condition_checker(
          evaluator, rule['conditions'], uid, display_name, condition_cache
      )
      if matches:
          actions = [x for x in rule['actions'] if x != 'dont_notify']
          if actions:
              actions_by_user[uid] = actions
          break
  \<close>
\<close>

fun rules_loop ::
  "evaluator \<Rightarrow> rule list \<Rightarrow> uid \<Rightarrow> string option \<Rightarrow> pstate \<Rightarrow> (error + unit) \<times> pstate"
where
  "rules_loop ev [] u dn st = (Inr (), st)"
| "rules_loop ev (r # rs) u dn st =
     (if rule_disabled r then rules_loop ev rs u dn st
      else
        (case condition_checker ev (conditions r) u dn st of
           (Inl e, st') \<Rightarrow> (Inl e, st')
         | (Inr matches, st') \<Rightarrow>
             if matches then (Inr (), record_actions u (strip_dont_notify (actions r)) st')
             else rules_loop ev rs u dn st'))"

text \<open>
  The outer loop:
  \<^verbatim>\<open>
  for uid, rules in self.rules_by_user.items():
      display_name = display_names.get(uid, None)

      filtered = filtered_by_user[uid]
      if len(filtered) == 0:
          continue

      for rule in rules:
          ...
  \<close>
  The subscript \<open>filtered_by_user[uid]\<close> raises \<open>KeyError\<close> when the dict has no such key.
\<close>

fun users_loop ::
  "evaluator \<Rightarrow> (uid \<rightharpoonup> event list) \<Rightarrow> (string \<rightharpoonup> string) \<Rightarrow> (uid \<times> rule list) list
     \<Rightarrow> pstate \<Rightarrow> (error + unit) \<times> pstate"
where
  "users_loop ev filtered_by_user display_names [] st = (Inr (), st)"
| "users_loop ev filtered_by_user display_names ((u, rules) # rest) st =
     (let display_name = display_names u in
      case filtered_by_user u of
        None \<Rightarrow> (Inl (KeyError u), st)
      | Some filtered \<Rightarrow>
          if length filtered = 0 then users_loop ev filtered_by_user display_names rest st
          else
            (case rules_loop ev rules u display_name st of
               (Inl e, st') \<Rightarrow> (Inl e, st')
             | (Inr _, st') \<Rightarrow> users_loop ev filtered_by_user display_names rest st'))"

text \<open>
  \<^verbatim>\<open>
  display_names = {}
  for ev in member_state.values():
      nm = ev.content.get("displayname", None)
      if nm and ev.type == EventTypes.Member:
          display_names[ev.state_key] = nm
  \<close>
\<close>

fun collect_display_names ::
  "externals \<Rightarrow> event list \<Rightarrow> (string \<rightharpoonup> string) \<Rightarrow> (string \<rightharpoonup> string)"
where
  "collect_display_names x [] display_names = display_names"
| "collect_display_names x (ev # evs) display_names =
     collect_display_names x evs
       (case map_of (content ev) ''displayname'' of
          None \<Rightarrow> display_names
        | Some nm \<Rightarrow>
            if nm \<noteq> [] \<and> etype ev = EventTypes_Member x
            then display_names(state_key ev \<mapsto> nm) else display_names)"

text \<open>
  \<^verbatim>\<open>
  def action_for_event_by_user(self, event, handler):
      actions_by_user = {}
      users_dict = yield self.store.are_guests(self.rules_by_user.keys())
      filtered_by_user = yield handler._filter_events_for_clients(
          users_dict.items(), [event]
      )
      evaluator = PushRuleEvaluatorForEvent(event, len(self.users_in_room))
      condition_cache = {}
      member_state = yield self.store.get_state_for_event(
          event.event_id,
      )
      display_names = {} ...
      for uid, rules in self.rules_by_user.items(): ...
      defer.returnValue(actions_by_user)
  \<close>
  The log of invocations is that of the current call: it starts empty.
\<close>

definition action_for_event_by_user ::
  "externals \<Rightarrow> event \<Rightarrow> handler \<Rightarrow> pstate \<Rightarrow> (error + (uid \<rightharpoonup> action list)) \<times> pstate"
where
  "action_for_event_by_user x event handler st =
     (let st1 = st\<lparr>actions_by_user := Map.empty, calls := []\<rparr> in
      case are_guests (store (self st1)) (map fst (rules_by_user (self st1))) of
        Inl e \<Rightarrow> (Inl e, st1)
      | Inr users_dict \<Rightarrow>
     (case handler users_dict [event] of
        Inl e \<Rightarrow> (Inl e, st1)
      | Inr filtered_by_user \<Rightarrow>
     (let evaluator = PushRuleEvaluatorForEvent x event (length (users_in_room (self st1)));
          st2 = st1\<lparr>cache := Map.empty\<rparr>
      in
      case get_state_for_event (store (self st2)) (event_id event) of
        Inl e \<Rightarrow> (Inl e, st2)
      | Inr member_state \<Rightarrow>
     (let display_names = collect_display_names x member_state Map.empty in
      case users_loop evaluator filtered_by_user display_names (rules_by_user (self st2)) st2 of
        (Inl e, st3) \<Rightarrow> (Inl e, st3)
      | (Inr _, st3) \<Rightarrow> (Inr (actions_by_user st3), st3)))))"

subsection \<open>Loading the rules\<close>

text \<open>
  \<^verbatim>\<open>
  def decode_rule_json(rule):
      rule['conditions'] = json.loads(rule['conditions'])
      rule['actions'] = json.loads(rule['actions'])
      return rule
  \<close>
\<close>

definition decode_rule_json :: "externals \<Rightarrow> rule_row \<Rightarrow> error + rule" where
  "decode_rule_json x row =
     (case loads_conditions x (row_conditions row) of
        Inl e \<Rightarrow> Inl e
      | Inr cs \<Rightarrow>
          (case loads_actions x (row_actions row) of
             Inl e \<Rightarrow> Inl e
           | Inr acts \<Rightarrow>
               Inr \<lparr>rule_id = row_rule_id row, priority_class = row_priority_class row,
                    enabled = row_enabled row, conditions = cs, actions = acts\<rparr>))"

text \<open>The list comprehension \<open>[decode_rule_json(rule_list) for rule_list in ...]\<close>.\<close>

fun decode_rows :: "externals \<Rightarrow> rule_row list \<Rightarrow> error + rule list" where
  "decode_rows x [] = Inr []"
| "decode_rows x (row # rows) =
     (case decode_rule_json x row of
        Inl e \<Rightarrow> Inl e
      | Inr r \<Rightarrow> (case decode_rows x rows of Inl e \<Rightarrow> Inl e | Inr rs \<Rightarrow> Inr (r # rs)))"

text \<open>\<open>rules_by_user.get(uid, [])\<close>, the stored rows of a user.\<close>

definition stored_rows :: "(uid \<rightharpoonup> rule_row list) \<Rightarrow> uid \<Rightarrow> rule_row list" where
  "stored_rows stored u = (case stored u of None \<Rightarrow> [] | Some rows \<Rightarrow> rows)"

text \<open>
  The dict comprehension of \<open>_get_rules\<close>, over \<open>user_ids\<close> in order:
  \<open>{uid: baserules.list_with_base_rules([...]) for uid in user_ids}\<close>.
\<close>

fun rules_for_users ::
  "externals \<Rightarrow> (uid \<rightharpoonup> rule_row list) \<Rightarrow> uid list \<Rightarrow> error + (uid \<times> rule list) list"
where
  "rules_for_users x stored [] = Inr []"
| "rules_for_users x stored (u # us) =
     (case decode_rows x (stored_rows stored u) of
        Inl e \<Rightarrow> Inl e
      | Inr rs \<Rightarrow>
          (case rules_for_users x stored us of
             Inl e \<Rightarrow> Inl e
           | Inr rest \<Rightarrow> Inr ((u, list_with_base_rules x rs) # rest)))"

text \<open>
  \<^verbatim>\<open>
  def _get_rules(room_id, user_ids, store):
      rules_by_user = yield store.bulk_get_push_rules(user_ids)
      rules_by_user = { ... }
      defer.returnValue(rules_by_user)
  \<close>
\<close>

definition get_rules ::
  "externals \<Rightarrow> string \<Rightarrow> uid list \<Rightarrow> store \<Rightarrow> error + (uid \<times> rule list) list"
where
  "get_rules x rid user_ids s =
     (case bulk_get_push_rules s user_ids of
        Inl e \<Rightarrow> Inl e
      | Inr stored \<Rightarrow> rules_for_users x stored user_ids)"

text \<open>
  \<^verbatim>\<open>
  def evaluator_for_room_id(room_id, store):
      users = yield store.get_users_in_room(room_id)
      rules_by_user = yield _get_rules(room_id, users, store)
      defer.returnValue(BulkPushRuleEvaluator(
          room_id, rules_by_user, users, store
      ))
  \<close>
\<close>

definition evaluator_for_room_id :: "externals \<Rightarrow> string \<Rightarrow> store \<Rightarrow> error + bulk_evaluator" where
  "evaluator_for_room_id x rid s =
     (case get_users_in_room s rid of
        Inl e \<Rightarrow> Inl e
      | Inr users \<Rightarrow>
          (case get_rules x rid users s of
             Inl e \<Rightarrow> Inl e
           | Inr rbu \<Rightarrow>
               Inr \<lparr>room_id = rid, rules_by_user = rbu, users_in_room = users, store = s\<rparr>))"

subsection \<open>Notions used to state the properties\<close>

text \<open>
  The rule at which the inner loop breaks (the winning rule of a user) and the state at
  that point: the loop of \<open>rules_loop\<close> up to, and without, the processing of the
  actions. \<open>rules_loop_first_match\<close> below relates the two.
\<close>

fun first_match ::
  "evaluator \<Rightarrow> rule list \<Rightarrow> uid \<Rightarrow> string option \<Rightarrow> pstate \<Rightarrow> (error + rule option) \<times> pstate"
where
  "first_match ev [] u dn st = (Inr None, st)"
| "first_match ev (r # rs) u dn st =
     (if rule_disabled r then first_match ev rs u dn st
      else
        (case condition_checker ev (conditions r) u dn st of
           (Inl e, st') \<Rightarrow> (Inl e, st')
         | (Inr matches, st') \<Rightarrow>
             if matches then (Inr (Some r), st') else first_match ev rs u dn st'))"

text \<open>
  The state in which the loop of \<open>_condition_checker\<close> starts the iteration after the
  conditions \<open>cs\<close>, when each of them lets the loop go on (its result, cached or
  computed, is true); \<open>None\<close> when the loop ends within \<open>cs\<close>.
\<close>

fun conds_pass :: "evaluator \<Rightarrow> cond list \<Rightarrow> uid \<Rightarrow> string option \<Rightarrow> pstate \<Rightarrow> pstate option" where
  "conds_pass ev [] u dn st = Some st"
| "conds_pass ev (c # cs) u dn st =
     (case cache_get st c of
        Some res \<Rightarrow> if res then conds_pass ev cs u dn st else None
      | None \<Rightarrow>
          (case ev c u dn of
             Inl e \<Rightarrow> None
           | Inr res \<Rightarrow>
               if res then conds_pass ev cs u dn (cache_put c res (log_call c u dn st))
               else None))"

text \<open>The result of a condition in a state is false: read from the cache, or computed.\<close>

definition cond_false :: "evaluator \<Rightarrow> cond \<Rightarrow> uid \<Rightarrow> string option \<Rightarrow> pstate \<Rightarrow> bool" where
  "cond_false ev c u dn st =
     (cache_get st c = Some False \<or> (cache_get st c = None \<and> ev c u dn = Inr False))"

text \<open>The number of logged invocations for conditions that carry the cache identifier \<open>s\<close>.\<close>

definition id_calls :: "string \<Rightarrow> pstate \<Rightarrow> nat" where
  "id_calls s st = length (filter (\<lambda>(c, u, dn). cache_id c = Some s) (calls st))"

text \<open>
  The invariant of the cache: no identifier has two logged invocations, and an
  identifier with a logged invocation has its result in the cache.
\<close>

definition calls_cached :: "pstate \<Rightarrow> bool" where
  "calls_cached st = (\<forall>s. id_calls s st \<le> 1 \<and> (cache st s = None \<longrightarrow> id_calls s st = 0))"

text \<open>Every invocation logged so far has returned a boolean.\<close>

definition calls_ok :: "evaluator \<Rightarrow> pstate \<Rightarrow> bool" where
  "calls_ok ev st = (\<forall>(c, v, dn) \<in> set (calls st). \<not> isl (ev c v dn))"

text \<open>Whatever a logged invocation has raised is the result \<open>r\<close>.\<close>

definition raised :: "evaluator \<Rightarrow> (error + 'a) \<Rightarrow> pstate \<Rightarrow> bool" where
  "raised ev r st = (\<forall>(c, v, dn) \<in> set (calls st). \<forall>e. ev c v dn = Inl e \<longrightarrow> r = Inl e)"

subsection \<open>Test doubles\<close>

text \<open>
  Concrete collaborators and data for the instances below. The evaluator double answers
  by the kind of the condition: \<open>yes\<close> matches, \<open>no\<close> does not, anything else raises.
\<close>

definition test_matches :: evaluator where
  "test_matches c u dn =
     (if kind c = ''yes'' then Inr True
      else if kind c = ''no'' then Inr False
      else Inl (EvaluatorError (kind c)))"

definition test_store :: store where
  "test_store =
     \<lparr>bulk_get_push_rules = (\<lambda>us. Inr Map.empty),
      get_users_in_room = (\<lambda>rid. Inr [''@u1:hs'', ''@u2:hs'']),
      are_guests = (\<lambda>us. Inr (map (\<lambda>u. (u, False)) us)),
      get_state_for_event = (\<lambda>eid. Inr [])\<rparr>"

definition test_cond :: "string option \<Rightarrow> string \<Rightarrow> cond" where
  "test_cond i k = \<lparr>cond_id = i, kind = k, params = []\<rparr>"

definition test_rule :: "string \<Rightarrow> bool option \<Rightarrow> cond list \<Rightarrow> action list \<Rightarrow> rule" where
  "test_rule n en cs acts =
     \<lparr>rule_id = n, priority_class = 5, enabled = en, conditions = cs, actions = acts\<rparr>"

definition test_state :: "(uid \<times> rule list) list \<Rightarrow> pstate" where
  "test_state rbu =
     \<lparr>self = \<lparr>room_id = ''!room:hs'', rules_by_user = rbu,
              users_in_room = map fst rbu, store = test_store\<rparr>,
      actions_by_user = Map.empty, cache = Map.empty, calls = []\<rparr>"

definition test_externals :: externals where
  "test_externals =
     \<lparr>PushRuleEvaluatorForEvent = (\<lambda>event member_count. test_matches),
      EventTypes_Member = ''m.room.member'',
      list_with_base_rules = (\<lambda>rs. rs),
      loads_conditions = (\<lambda>s. if s = ''[]'' then Inr []
                                else if s = ''[yes]'' then Inr [test_cond None ''yes'']
                                else Inl (DecodeError s)),
      loads_actions = (\<lambda>s. if s = ''[]'' then Inr []
                             else if s = ''[notify]'' then Inr [ActStr ''notify'']
                             else Inl (DecodeError s))\<rparr>"

text \<open>
  A visibility filter double: the users in \<open>hidden\<close> see no event, the users in
  \<open>missing\<close> get no entry at all, everybody else sees every event.
\<close>

definition test_filter :: "uid list \<Rightarrow> uid list \<Rightarrow> handler" where
  "test_filter hidden missing users_dict events =
     Inr (map_of (map (\<lambda>(u, g). (u, if u \<in> set hidden then [] else events))
                      (filter (\<lambda>(u, g). u \<notin> set missing) users_dict)))"

definition test_event :: event where
  "test_event = \<lparr>event_id = ''$e1'', etype = ''m.room.message'', state_key = [],
                  content = [(''body'', ''hello'')]\<rparr>"

definition two_users :: "(uid \<times> rule list) list" where
  "two_users =
     [(''@u1:hs'', [test_rule ''r1'' None [test_cond (Some ''c1'') ''yes''] [ActStr ''notify'']]),
      (''@u2:hs'', [test_rule ''r2'' None [test_cond (Some ''c1'') ''yes''] [ActStr ''sound'']])]"

text \<open>Two users whose only rule has the same cached condition, which does not match.\<close>

definition shared_false :: "(uid \<times> rule list) list" where
  "shared_false =
     [(''@u1:hs'', [test_rule ''r1'' None [test_cond (Some ''c1'') ''no''] [ActStr ''notify'']]),
      (''@u2:hs'', [test_rule ''r2'' None [test_cond (Some ''c1'') ''no''] [ActStr ''sound'']])]"

text \<open>
  The second user has a rule \<open>r0\<close> that does not match, then two rules A and B that
  match; the condition of \<open>r0\<close> carries the cache identifier of the first user's
  condition.
\<close>

definition earlier_false :: "(uid \<times> rule list) list" where
  "earlier_false =
     [(''@u1:hs'', [test_rule ''r1'' None [test_cond (Some ''c1'') ''no''] [ActStr ''notify'']]),
      (''@u2:hs'',
         [test_rule ''r0'' None [test_cond (Some ''c1'') ''no''] [ActStr ''r0_action''],
          test_rule ''A'' None [test_cond None ''yes''] [ActStr ''notify'', ActStr ''dont_notify''],
          test_rule ''B'' None [test_cond None ''yes''] [ActStr ''highlight'']])]"

definition notify_users :: "(uid \<times> rule list) list" where
  "notify_users =
     [(''@u1:hs'', [test_rule ''rA'' None [test_cond None ''yes'']
                      [ActStr ''notify'', ActStr ''dont_notify'', ActStr ''sound'']]),
      (''@u2:hs'', [test_rule ''rB'' None [] [ActStr ''dont_notify'']])]"

definition all_visible :: "uid \<rightharpoonup> event list" where
  "all_visible = map_of [(''@u1:hs'', [test_event]), (''@u2:hs'', [test_event])]"

text \<open>The state in which \<open>action_for_event_by_user\<close> enters its loop over the users.\<close>

definition entry_state :: "pstate \<Rightarrow> pstate" where
  "entry_state st = st\<lparr>actions_by_user := Map.empty, calls := [], cache := Map.empty\<rparr>"



text \<open>A stored row whose action list is not valid JSON.\<close>

definition bad_row :: rule_row where
  "bad_row = \<lparr>row_rule_id = ''custom'', row_priority_class = 5, row_enabled = None,
               row_conditions = ''[yes]'', row_actions = ''{oops''\<rparr>"

text \<open>A storage double whose method named \<open>m\<close> fails.\<close>

definition failing_store :: "string \<Rightarrow> store" where
  "failing_store m =
     \<lparr>bulk_get_push_rules =
        (\<lambda>us. if m = ''bulk_get_push_rules'' then Inl (StorageError m)
              else Inr [''@u1:hs'' \<mapsto> [bad_row]]),
      get_users_in_room =
        (\<lambda>rid. if m = ''get_users_in_room'' then Inl (StorageError m)
               else Inr [''@u1:hs'', ''@u2:hs'']),
      are_guests =
        (\<lambda>us. if m = ''are_guests'' then Inl (StorageError m)
              else Inr (map (\<lambda>u. (u, False)) us)),
      get_state_for_event =
        (\<lambda>eid. if m = ''get_state_for_event'' then Inl (StorageError m) else Inr [])\<rparr>"

definition failing_state :: "string \<Rightarrow> pstate" where
  "failing_state m =
     \<lparr>self = \<lparr>room_id = ''!room:hs'', rules_by_user = two_users,
              users_in_room = map fst two_users, store = failing_store m\<rparr>,
      actions_by_user = Map.empty, cache = Map.empty, calls = []\<rparr>"

definition failing_filter :: handler where
  "failing_filter users_dict events = Inl (FilterError ''filter'')"

definition boom_users :: "(uid \<times> rule list) list" where
  "boom_users =
     [(''@u1:hs'', [test_rule ''r1'' None [test_cond None ''boom''] [ActStr ''notify'']]),
      (''@u2:hs'', [test_rule ''r2'' None [] [ActStr ''sound'']])]"

text \<open>A state whose local dicts and log hold leftovers.\<close>

definition stale_state :: pstate where
  "stale_state =
     (test_state two_users)\<lparr>actions_by_user := [''@u9:hs'' \<mapsto> [ActStr ''stale'']],
        cache := [''c1'' \<mapsto> False],
        calls := [(test_cond (Some ''c1'') ''no'', ''@u9:hs'', None)]\<rparr>"

section \<open>Properties\<close>

lemmas test_defs = test_matches_def test_cond_def test_rule_def test_state_def test_store_def

lemmas fail_defs = bad_row_def failing_store_def failing_state_def failing_filter_def

lemmas afe_defs = action_for_event_by_user_def test_externals_def test_filter_def test_event_def

lemmas step_defs = cache_get_def cache_id_def cache_put_def log_call_def rule_disabled_def
  strip_dont_notify_def record_actions_def

subsection \<open>The winning rule\<close>

lemma rules_loop_first_match:
  "rules_loop ev rs u dn st =
     (case first_match ev rs u dn st of
        (Inl e, st') \<Rightarrow> (Inl e, st')
      | (Inr None, st') \<Rightarrow> (Inr (), st')
      | (Inr (Some w), st') \<Rightarrow> (Inr (), record_actions u (strip_dont_notify (actions w)) st'))"
  by (induction rs arbitrary: st) (auto split: prod.splits sum.splits option.splits)

lemma first_match_append:
  "first_match ev pre u dn st = (Inr None, sa) \<Longrightarrow>
   first_match ev (pre @ rs) u dn st = first_match ev rs u dn sa"
  by (induction pre arbitrary: st) (auto split: prod.splits sum.splits if_splits)

lemma rules_loop_winner:
  assumes "first_match ev pre u dn st = (Inr None, sa)"
    and "\<not> rule_disabled A"
    and "condition_checker ev (conditions A) u dn sa = (Inr True, sb)"
  shows "rules_loop ev (pre @ A # post) u dn st =
           (Inr (), record_actions u (strip_dont_notify (actions A)) sb)"
  using assms by (simp add: rules_loop_first_match first_match_append)

lemma rules_loop_skip_disabled:
  "rule_disabled r \<Longrightarrow> rules_loop ev (pre @ r # post) u dn st = rules_loop ev (pre @ post) u dn st"
  by (induction pre arbitrary: st) (auto split: prod.splits sum.splits)

lemma first_match_not_disabled:
  "first_match ev rs u dn st = (Inr (Some w), sa) \<Longrightarrow> \<not> rule_disabled w"
  by (induction rs arbitrary: st) (auto split: prod.splits sum.splits if_splits)

lemma rules_loop_enabled_default:
  "enabled r = None \<Longrightarrow>
   rules_loop ev (pre @ r # post) u dn st = rules_loop ev (pre @ r\<lparr>enabled := Some True\<rparr> # post) u dn st"
  by (induction pre arbitrary: st) (auto simp: rule_disabled_def split: prod.splits sum.splits)

subsection \<open>Condition matching\<close>

text \<open>
  C1. The claim: \<open>_condition_checker\<close> returns true iff every condition matches, and
  returns false whenever a condition's result is false, be it computed or read from
  the cache. The source does not: when the cache holds \<open>False\<close> for a condition's
  identifier, the loop is left by \<open>break\<close> and the function returns \<open>True\<close>. Here the
  only condition of the sequence does not match (the evaluator says so, and the cache
  says so), and the result is \<open>True\<close>. In a whole evaluation the cache entry comes
  from the first user: two users have one rule each, with the same cached condition,
  which does not match; the first user gets no entry, the second one is notified.
\<close>

theorem condition_checker_cached_false_returns_true:
  "condition_checker test_matches [test_cond (Some ''c1'') ''no''] ''@u2:hs'' None
     ((test_state [])\<lparr>cache := [''c1'' \<mapsto> False]\<rparr>)
   = (Inr True, (test_state [])\<lparr>cache := [''c1'' \<mapsto> False]\<rparr>)
   \<and> test_matches (test_cond (Some ''c1'') ''no'') ''@u2:hs'' None = Inr False
   \<and> fst (action_for_event_by_user test_externals test_event (test_filter [] [])
         (test_state shared_false))
     = Inr [''@u2:hs'' \<mapsto> [ActStr ''sound'']]"
  by (simp add: afe_defs test_defs step_defs shared_false_def)

text \<open>
  The other direction holds: when the checker returns \<open>False\<close>, the evaluator has
  answered \<open>False\<close> for one of the conditions.
\<close>

lemma condition_checker_False_sound:
  "condition_checker ev cs u dn st = (Inr False, st') \<Longrightarrow> \<exists>c \<in> set cs. ev c u dn = Inr False"
  by (induction cs arbitrary: st)
    (auto simp: Let_def split: option.splits sum.splits bool.splits if_splits)

text \<open>
  C9. An empty condition sequence matches, in any state and without an invocation of
  the evaluator (the state, which holds the log of invocations, is returned as it
  was). Hence a rule that is not disabled and has no conditions wins as soon as the
  loop reaches it, that is, when no rule before it has won: the loop ends there with
  that rule's actions recorded, whatever rules follow.
\<close>

theorem empty_conditions_match:
  "condition_checker ev [] u dn st = (Inr True, st) \<and>
   (first_match ev pre u dn st = (Inr None, sa) \<longrightarrow> \<not> rule_disabled r \<longrightarrow> conditions r = [] \<longrightarrow>
      rules_loop ev (pre @ r # post) u dn st =
        (Inr (), record_actions u (strip_dont_notify (actions r)) sa))"
  using rules_loop_winner [of ev pre u dn st sa r sa post] by simp

theorem empty_conditions_match_witness:
  "first_match test_matches [test_rule ''r1'' None [test_cond None ''no''] [ActStr ''notify'']]
      ''@u1:hs'' None (test_state [])
     = (Inr None, log_call (test_cond None ''no'') ''@u1:hs'' None (test_state []))
   \<and> \<not> rule_disabled (test_rule ''r2'' (Some True) [] [ActStr ''notify'', ActStr ''dont_notify''])
   \<and> conditions (test_rule ''r2'' (Some True) [] [ActStr ''notify'', ActStr ''dont_notify'']) = []
   \<and> rules_loop test_matches
        ([test_rule ''r1'' None [test_cond None ''no''] [ActStr ''notify'']]
          @ test_rule ''r2'' (Some True) [] [ActStr ''notify'', ActStr ''dont_notify'']
          # [test_rule ''r3'' None [] [ActStr ''sound'']])
        ''@u1:hs'' None (test_state [])
     = (Inr (), record_actions ''@u1:hs'' [ActStr ''notify'']
                  (log_call (test_cond None ''no'') ''@u1:hs'' None (test_state [])))"
proof -
  let ?r1 = "test_rule ''r1'' None [test_cond None ''no''] [ActStr ''notify'']"
  let ?r2 = "test_rule ''r2'' (Some True) [] [ActStr ''notify'', ActStr ''dont_notify'']"
  let ?sa = "log_call (test_cond None ''no'') ''@u1:hs'' None (test_state [])"
  have h1: "first_match test_matches [?r1] ''@u1:hs'' None (test_state []) = (Inr None, ?sa)"
    by (simp add: test_defs step_defs)
  have h2: "\<not> rule_disabled ?r2" by (simp add: test_defs step_defs)
  have h3: "conditions ?r2 = []" by (simp add: test_defs)
  have h4: "strip_dont_notify (actions ?r2) = [ActStr ''notify'']"
    by (simp add: test_defs step_defs)
  from empty_conditions_match [where ev = test_matches and pre = "[?r1]" and u = "''@u1:hs''"
      and dn = None and st = "test_state []" and sa = ?sa and r = ?r2
      and post = "[test_rule ''r3'' None [] [ActStr ''sound'']]"] h1 h2 h3 h4
  show ?thesis by simp
qed

lemma condition_checker_after_pass:
  "conds_pass ev pre u dn st = Some sa \<Longrightarrow>
   condition_checker ev (pre @ rest) u dn st = condition_checker ev rest u dn sa"
  by (induction pre arbitrary: st) (auto split: option.splits sum.splits if_splits bool.splits)

lemma condition_checker_false_head:
  "cond_false ev c u dn sa \<Longrightarrow>
   condition_checker ev (c # post) u dn sa =
     (if cache_get sa c = None then (Inr False, cache_put c False (log_call c u dn sa))
      else (Inr True, sa))"
  by (auto simp: cond_false_def)

lemma calls_cache_put: "calls (cache_put c b st) = calls st"
  by (simp add: cache_put_def split: option.splits)

lemma calls_log_call: "calls (log_call c u dn st) = calls st @ [(c, u, dn)]"
  by (simp add: log_call_def)

text \<open>
  C5. Short circuit. Let the condition \<open>c\<close> stand at position \<open>i\<close> of a rule's sequence
  \<open>pre @ c # post\<close>, let every condition before it let the loop go on (\<open>sa\<close> is the
  state when the loop reaches \<open>c\<close>), and let the result of \<open>c\<close> in \<open>sa\<close> be false, read
  from the cache or computed. Then the check is the check of \<open>c\<close> alone in \<open>sa\<close>: the
  log of evaluator invocations ends with the invocation for \<open>c\<close> (when its result was
  not cached) or is that of \<open>sa\<close> (when it was), so the evaluator is not invoked for
  any condition of \<open>post\<close>.
\<close>

theorem short_circuit:
  assumes "conds_pass ev pre u dn st = Some sa" and "cond_false ev c u dn sa"
  shows "condition_checker ev (pre @ c # post) u dn st = condition_checker ev [c] u dn sa
         \<and> calls (snd (condition_checker ev (pre @ c # post) u dn st)) =
             calls sa @ (if cache_get sa c = None then [(c, u, dn)] else [])"
  using assms
  by (simp add: condition_checker_after_pass condition_checker_false_head
      calls_cache_put calls_log_call del: condition_checker.simps)

theorem short_circuit_witness:
  "conds_pass test_matches [test_cond (Some ''a'') ''yes'', test_cond None ''yes''] ''@u1:hs'' None
      (test_state [])
     = Some (log_call (test_cond None ''yes'') ''@u1:hs'' None
              (cache_put (test_cond (Some ''a'') ''yes'') True
                (log_call (test_cond (Some ''a'') ''yes'') ''@u1:hs'' None (test_state []))))
   \<and> cond_false test_matches (test_cond (Some ''b'') ''no'') ''@u1:hs'' None
        (log_call (test_cond None ''yes'') ''@u1:hs'' None
          (cache_put (test_cond (Some ''a'') ''yes'') True
            (log_call (test_cond (Some ''a'') ''yes'') ''@u1:hs'' None (test_state []))))
   \<and> calls (snd (condition_checker test_matches
        ([test_cond (Some ''a'') ''yes'', test_cond None ''yes'']
           @ test_cond (Some ''b'') ''no'' # [test_cond None ''boom''])
        ''@u1:hs'' None (test_state [])))
     = [(test_cond (Some ''a'') ''yes'', ''@u1:hs'', None),
        (test_cond None ''yes'', ''@u1:hs'', None),
        (test_cond (Some ''b'') ''no'', ''@u1:hs'', None)]
   \<and> conds_pass test_matches [] ''@u2:hs'' None ((test_state [])\<lparr>cache := [''b'' \<mapsto> False]\<rparr>)
     = Some ((test_state [])\<lparr>cache := [''b'' \<mapsto> False]\<rparr>)
   \<and> cond_false test_matches (test_cond (Some ''b'') ''no'') ''@u2:hs'' None
        ((test_state [])\<lparr>cache := [''b'' \<mapsto> False]\<rparr>)
   \<and> calls (snd (condition_checker test_matches
        ([] @ test_cond (Some ''b'') ''no'' # [test_cond None ''boom''])
        ''@u2:hs'' None ((test_state [])\<lparr>cache := [''b'' \<mapsto> False]\<rparr>)))
     = []"
proof -
  let ?a = "test_cond (Some ''a'') ''yes''" and ?y = "test_cond None ''yes''"
  let ?b = "test_cond (Some ''b'') ''no''" and ?boom = "test_cond None ''boom''"
  let ?sa = "log_call ?y ''@u1:hs'' None (cache_put ?a True (log_call ?a ''@u1:hs'' None (test_state [])))"
  let ?sb = "(test_state [])\<lparr>cache := [''b'' \<mapsto> False]\<rparr>"
  have h1: "conds_pass test_matches [?a, ?y] ''@u1:hs'' None (test_state []) = Some ?sa"
    by (simp add: test_defs step_defs)
  have h2: "cond_false test_matches ?b ''@u1:hs'' None ?sa"
    by (simp add: cond_false_def test_defs step_defs)
  have h3: "calls ?sa @ (if cache_get ?sa ?b = None then [(?b, ''@u1:hs'', None)] else [])
      = [(?a, ''@u1:hs'', None), (?y, ''@u1:hs'', None), (?b, ''@u1:hs'', None)]"
    by (simp add: test_defs step_defs)
  have k1: "conds_pass test_matches [] ''@u2:hs'' None ?sb = Some ?sb" by simp
  have k2: "cond_false test_matches ?b ''@u2:hs'' None ?sb"
    by (simp add: cond_false_def test_defs step_defs)
  have k3: "calls ?sb @ (if cache_get ?sb ?b = None then [(?b, ''@u2:hs'', None)] else []) = []"
    by (simp add: test_defs step_defs)
  note a = short_circuit [OF h1 h2, of "[?boom]", unfolded h3]
  note b = short_circuit [OF k1 k2, of "[?boom]", unfolded k3]
  show ?thesis using h1 h2 k1 k2 a b by blast
qed

subsection \<open>Scanning a user's rules\<close>

text \<open>
  C4. The claim: when an earlier enabled rule A and a later rule B of a user both match
  the event, the user's result is A's actions with \<open>dont_notify\<close> removed. The source
  does not ensure it. Here the rules of the second user are \<open>r0\<close>, A, B, in this
  order: the only condition of \<open>r0\<close> does not match (the evaluator answers \<open>False\<close>),
  the conditions of A and B match, and A's actions without \<open>dont_notify\<close> are
  \<open>[notify]\<close>. The first user's rule has a condition with the same cache identifier,
  so the cache holds \<open>False\<close> for it when the second user's turn comes; the check of
  \<open>r0\<close> then leaves its loop by \<open>break\<close> and returns \<open>True\<close>, \<open>r0\<close> wins, and the
  second user's result is \<open>r0\<close>'s actions, neither A's nor B's. Without the first user
  the same rules give A's actions.
\<close>

theorem cached_false_rule_wins_over_first_match:
  "test_matches (test_cond (Some ''c1'') ''no'') ''@u2:hs'' None = Inr False
   \<and> test_matches (test_cond None ''yes'') ''@u2:hs'' None = Inr True
   \<and> strip_dont_notify [ActStr ''notify'', ActStr ''dont_notify''] = [ActStr ''notify'']
   \<and> fst (action_for_event_by_user test_externals test_event (test_filter [] [])
         (test_state earlier_false))
     = Inr [''@u2:hs'' \<mapsto> [ActStr ''r0_action'']]
   \<and> fst (action_for_event_by_user test_externals test_event (test_filter [] [])
         (test_state (tl earlier_false)))
     = Inr [''@u2:hs'' \<mapsto> [ActStr ''notify'']]"
  by (simp add: afe_defs test_defs step_defs earlier_false_def)

text \<open>
  C7. A rule whose \<open>enabled\<close> flag is present and false is skipped: removing it from
  the sequence changes neither the result nor the state (which holds the log of
  evaluator invocations, so its conditions are not evaluated), and it is never the
  winning rule. A rule without the flag behaves as the same rule with \<open>enabled\<close> true.
\<close>

theorem disabled_rules_skipped:
  "(enabled r = Some False \<longrightarrow>
      rules_loop ev (pre @ r # post) u dn st = rules_loop ev (pre @ post) u dn st)
   \<and> (first_match ev rs u dn st = (Inr (Some w), sa) \<longrightarrow> enabled w \<noteq> Some False)
   \<and> (enabled r = None \<longrightarrow>
      rules_loop ev (pre @ r # post) u dn st =
        rules_loop ev (pre @ r\<lparr>enabled := Some True\<rparr> # post) u dn st)"
  using rules_loop_skip_disabled [of r ev pre post u dn st]
    first_match_not_disabled [of ev rs u dn st w sa]
    rules_loop_enabled_default [of r ev pre post u dn st]
  by (auto simp: rule_disabled_def)

theorem disabled_rules_skipped_witness:
  "enabled (test_rule ''D'' (Some False) [test_cond None ''yes''] [ActStr ''notify'']) = Some False
   \<and> rules_loop test_matches
        ([test_rule ''r1'' None [test_cond None ''no''] [ActStr ''sound'']]
          @ test_rule ''D'' (Some False) [test_cond None ''yes''] [ActStr ''notify'']
          # [test_rule ''B'' None [test_cond None ''yes''] [ActStr ''highlight'']])
        ''@u1:hs'' None (test_state [])
     = rules_loop test_matches
        ([test_rule ''r1'' None [test_cond None ''no''] [ActStr ''sound'']]
          @ [test_rule ''B'' None [test_cond None ''yes''] [ActStr ''highlight'']])
        ''@u1:hs'' None (test_state [])
   \<and> first_match test_matches
        [test_rule ''D'' (Some False) [test_cond None ''yes''] [ActStr ''notify''],
         test_rule ''B'' None [test_cond None ''yes''] [ActStr ''highlight'']]
        ''@u1:hs'' None (test_state [])
     = (Inr (Some (test_rule ''B'' None [test_cond None ''yes''] [ActStr ''highlight''])),
        log_call (test_cond None ''yes'') ''@u1:hs'' None (test_state []))
   \<and> enabled (test_rule ''B'' None [test_cond None ''yes''] [ActStr ''highlight'']) \<noteq> Some False
   \<and> enabled (test_rule ''B'' None [test_cond None ''yes''] [ActStr ''highlight'']) = None
   \<and> rules_loop test_matches
        ([test_rule ''r1'' None [test_cond None ''no''] [ActStr ''sound'']]
          @ test_rule ''B'' None [test_cond None ''yes''] [ActStr ''highlight''] # [])
        ''@u1:hs'' None (test_state [])
     = rules_loop test_matches
        ([test_rule ''r1'' None [test_cond None ''no''] [ActStr ''sound'']]
          @ (test_rule ''B'' None [test_cond None ''yes''] [ActStr ''highlight''])\<lparr>enabled := Some True\<rparr> # [])
        ''@u1:hs'' None (test_state [])"
proof -
  let ?r1 = "test_rule ''r1'' None [test_cond None ''no''] [ActStr ''sound'']"
  let ?D = "test_rule ''D'' (Some False) [test_cond None ''yes''] [ActStr ''notify'']"
  let ?B = "test_rule ''B'' None [test_cond None ''yes''] [ActStr ''highlight'']"
  let ?sa = "log_call (test_cond None ''yes'') ''@u1:hs'' None (test_state [])"
  have h1: "enabled ?D = Some False" by (simp add: test_defs)
  have h2: "first_match test_matches [?D, ?B] ''@u1:hs'' None (test_state []) = (Inr (Some ?B), ?sa)"
    by (simp add: test_defs step_defs)
  have h3: "enabled ?B = None" by (simp add: test_defs)
  note a = disabled_rules_skipped [where r = ?D and pre = "[?r1]" and post = "[?B]"
      and ev = test_matches and u = "''@u1:hs''" and dn = None and st = "test_state []"
      and rs = "[?D, ?B]" and w = ?B and sa = ?sa]
  note b = disabled_rules_skipped [where r = ?B and pre = "[?r1]" and post = "[]"
      and ev = test_matches and u = "''@u1:hs''" and dn = None and st = "test_state []"
      and rs = "[?D, ?B]" and w = ?B and sa = ?sa]
  show ?thesis using h1 h2 h3 a b by blast
qed

subsection \<open>The condition cache\<close>

lemma id_calls_log_call:
  "id_calls s (log_call c u dn st) = id_calls s st + (if cache_id c = Some s then 1 else 0)"
  by (simp add: id_calls_def log_call_def)

lemma id_calls_cache_put: "id_calls s (cache_put c b st) = id_calls s st"
  by (simp add: id_calls_def calls_cache_put)

lemma id_calls_record_actions: "id_calls s (record_actions u acts st) = id_calls s st"
  by (simp add: id_calls_def record_actions_def)

lemma cache_log_call: "cache (log_call c u dn st) = cache st"
  by (simp add: log_call_def)

lemma cache_cache_put:
  "cache (cache_put c b st) s = (if cache_id c = Some s then Some b else cache st s)"
  by (simp add: cache_put_def split: option.splits)

lemma cache_record_actions: "cache (record_actions u acts st) = cache st"
  by (simp add: record_actions_def)

lemma calls_cached_record_actions: "calls_cached (record_actions u acts st) = calls_cached st"
  by (simp add: calls_cached_def id_calls_record_actions cache_record_actions)

lemma calls_cached_logged:
  assumes "calls_cached st" and "cache_get st c = None"
  shows "id_calls s (log_call c u dn st) \<le> 1"
  using assms
  by (auto simp: calls_cached_def id_calls_log_call cache_get_def split: option.splits)

lemma calls_cached_put:
  assumes "calls_cached st" and "cache_get st c = None"
  shows "calls_cached (cache_put c b (log_call c u dn st))"
  unfolding calls_cached_def
proof (intro allI conjI impI)
  fix s
  show "id_calls s (cache_put c b (log_call c u dn st)) \<le> 1"
    using calls_cached_logged [OF assms] by (simp add: id_calls_cache_put)
  assume "cache (cache_put c b (log_call c u dn st)) s = None"
  then have "cache_id c \<noteq> Some s" and "cache st s = None"
    by (auto simp: cache_cache_put cache_log_call split: if_splits)
  with assms(1) show "id_calls s (cache_put c b (log_call c u dn st)) = 0"
    by (simp add: calls_cached_def id_calls_cache_put id_calls_log_call)
qed

lemma condition_checker_calls_cached:
  "calls_cached st \<Longrightarrow> condition_checker ev cs u dn st = (r, st') \<Longrightarrow>
   (\<forall>s. id_calls s st' \<le> 1) \<and> (\<not> isl r \<longrightarrow> calls_cached st')"
proof (induction cs arbitrary: st)
  case Nil
  then show ?case by (auto simp: calls_cached_def)
next
  case (Cons c cs)
  show ?case
  proof (cases "cache_get st c")
    case (Some b)
    with Cons show ?thesis by (cases b) (auto simp: calls_cached_def)
  next
    case None
    show ?thesis
    proof (cases "ev c u dn")
      case (Inl e)
      with None Cons.prems(2) have "r = Inl e" and "st' = log_call c u dn st" by simp_all
      with calls_cached_logged [OF Cons.prems(1) None, of _ u dn] show ?thesis by simp
    next
      case (Inr b)
      note put = calls_cached_put [OF Cons.prems(1) None, of b u dn]
      show ?thesis
      proof (cases b)
        case True
        with Inr None Cons.prems(2)
        have "condition_checker ev cs u dn (cache_put c b (log_call c u dn st)) = (r, st')"
          by simp
        from Cons.IH [OF put this] show ?thesis .
      next
        case False
        with Inr None Cons.prems(2) put show ?thesis by (auto simp: calls_cached_def)
      qed
    qed
  qed
qed

lemma rules_loop_calls_cached:
  "calls_cached st \<Longrightarrow> rules_loop ev rs u dn st = (r, st') \<Longrightarrow>
   (\<forall>s. id_calls s st' \<le> 1) \<and> (\<not> isl r \<longrightarrow> calls_cached st')"
proof (induction rs arbitrary: st)
  case Nil
  then show ?case by (auto simp: calls_cached_def)
next
  case (Cons a rs)
  show ?case
  proof (cases "rule_disabled a")
    case True
    with Cons show ?thesis by simp
  next
    case False
    obtain q sa where cc: "condition_checker ev (conditions a) u dn st = (q, sa)"
      by (cases "condition_checker ev (conditions a) u dn st")
    note inv = condition_checker_calls_cached [OF Cons.prems(1) cc]
    show ?thesis
    proof (cases q)
      case (Inl e)
      with False cc Cons.prems(2) inv show ?thesis by auto
    next
      case (Inr m)
      show ?thesis
      proof (cases m)
        case True
        with Inr False cc Cons.prems(2) inv show ?thesis
          by (auto simp: calls_cached_record_actions id_calls_record_actions)
      next
        case f: False
        with Inr False cc Cons.prems(2) have "rules_loop ev rs u dn sa = (r, st')" by simp
        moreover from inv Inr have "calls_cached sa" by simp
        ultimately show ?thesis using Cons.IH by blast
      qed
    qed
  qed
qed

lemma users_loop_calls_cached:
  "calls_cached st \<Longrightarrow> users_loop ev f d items st = (r, st') \<Longrightarrow> (\<forall>s. id_calls s st' \<le> 1)"
proof (induction items arbitrary: st)
  case Nil
  then show ?case by (auto simp: calls_cached_def)
next
  case (Cons it items)
  obtain u rs where it: "it = (u, rs)" by (cases it)
  show ?case
  proof (cases "f u")
    case None
    with it Cons.prems show ?thesis by (auto simp: calls_cached_def)
  next
    case (Some vis)
    show ?thesis
    proof (cases "vis = []")
      case True
      with Some it Cons show ?thesis by simp
    next
      case False
      obtain q sa where rl: "rules_loop ev rs u (d u) st = (q, sa)"
        by (cases "rules_loop ev rs u (d u) st")
      note inv = rules_loop_calls_cached [OF Cons.prems(1) rl]
      show ?thesis
      proof (cases q)
        case (Inl e)
        with False Some it rl Cons.prems(2) inv show ?thesis by auto
      next
        case (Inr m)
        with False Some it rl Cons.prems(2)
        have "users_loop ev f d items sa = (r, st')" by simp
        moreover from inv Inr have "calls_cached sa" by simp
        ultimately show ?thesis using Cons.IH by blast
      qed
    qed
  qed
qed

lemma calls_cached_fresh: "cache st = Map.empty \<Longrightarrow> calls st = [] \<Longrightarrow> calls_cached st"
  by (simp add: calls_cached_def id_calls_def)

lemma action_for_event_by_user_id_calls:
  "id_calls s (snd (action_for_event_by_user x event handler st)) \<le> 1"
proof -
  let ?st1 = "st\<lparr>actions_by_user := Map.empty, calls := []\<rparr>"
  let ?st2 = "?st1\<lparr>cache := Map.empty\<rparr>"
  have a: "id_calls s ?st1 \<le> 1" and b: "id_calls s ?st2 \<le> 1" by (simp_all add: id_calls_def)
  have c: "calls_cached ?st2" by (simp add: calls_cached_fresh)
  have d: "users_loop ev f dm items ?st2 = (q, sc) \<Longrightarrow> id_calls s sc \<le> 1" for ev f dm items q sc
    using users_loop_calls_cached [OF c, of ev f dm items q sc] by simp
  show ?thesis
    using a b d
    by (auto simp: action_for_event_by_user_def Let_def split: sum.splits prod.splits)
qed

lemma condition_checker_no_id:
  "cache_id c = None \<Longrightarrow>
   condition_checker ev (c # rest) u dn sa =
     (case ev c u dn of
        Inl e \<Rightarrow> (Inl e, log_call c u dn sa)
      | Inr res \<Rightarrow>
          if res then condition_checker ev rest u dn (log_call c u dn sa)
          else (Inr False, log_call c u dn sa))"
  by (simp add: cache_get_def cache_put_def split: sum.splits)

lemma condition_checker_no_ids:
  "\<forall>c\<in>set cs. cache_id c = None \<and> ev c u dn = Inr True \<Longrightarrow>
   condition_checker ev cs u dn sa = (Inr True, sa\<lparr>calls := calls sa @ map (\<lambda>c. (c, u, dn)) cs\<rparr>)"
proof (induction cs arbitrary: sa)
  case Nil
  then show ?case by simp
next
  case (Cons c cs)
  then have "condition_checker ev (c # cs) u dn sa = condition_checker ev cs u dn (log_call c u dn sa)"
    by (simp add: condition_checker_no_id del: condition_checker.simps)
  with Cons show ?case by (simp add: log_call_def del: condition_checker.simps)
qed

text \<open>
  C3. Within one call of \<open>action_for_event_by_user\<close>, whatever the collaborators answer
  and however the call ends, the evaluator is invoked at most once for the conditions
  that carry a given cache identifier, over all users and rules. A condition without
  a cache identifier is invoked each time the loop reaches it, in any state of the
  cache, and the invocation leaves the cache as it was (only the log grows); so a
  sequence of such conditions that all match is invoked once per occurrence, in order.
\<close>

theorem cache_identifier_invoked_once:
  "(\<forall>s. id_calls s (snd (action_for_event_by_user x event handler st)) \<le> 1)
   \<and> (cache_id c = None \<longrightarrow>
        condition_checker ev (c # rest) u dn sa =
          (case ev c u dn of
             Inl e \<Rightarrow> (Inl e, log_call c u dn sa)
           | Inr res \<Rightarrow>
               if res then condition_checker ev rest u dn (log_call c u dn sa)
               else (Inr False, log_call c u dn sa)))
   \<and> ((\<forall>c\<in>set cs. cache_id c = None \<and> ev c u dn = Inr True) \<longrightarrow>
        condition_checker ev cs u dn sa =
          (Inr True, sa\<lparr>calls := calls sa @ map (\<lambda>c. (c, u, dn)) cs\<rparr>))"
  using action_for_event_by_user_id_calls [of _ x event handler st]
    condition_checker_no_id [of c ev rest u dn sa]
    condition_checker_no_ids [of cs ev u dn sa]
  by blast

theorem cache_identifier_invoked_once_witness:
  "id_calls ''c1'' (snd (action_for_event_by_user test_externals test_event (test_filter [] [])
      (test_state two_users))) \<le> 1
   \<and> calls (snd (action_for_event_by_user test_externals test_event (test_filter [] [])
      (test_state two_users))) = [(test_cond (Some ''c1'') ''yes'', ''@u1:hs'', None)]
   \<and> cache_id (test_cond None ''no'') = None
   \<and> condition_checker test_matches [test_cond None ''no'', test_cond None ''yes'']
        ''@u1:hs'' None (test_state [])
      = (Inr False, log_call (test_cond None ''no'') ''@u1:hs'' None (test_state []))
   \<and> cache_id (test_cond None ''yes'') = None
   \<and> test_matches (test_cond None ''yes'') ''@u1:hs'' None = Inr True
   \<and> condition_checker test_matches [test_cond None ''yes'', test_cond None ''yes'']
        ''@u1:hs'' None (test_state [])
      = (Inr True, (test_state [])\<lparr>calls :=
           [(test_cond None ''yes'', ''@u1:hs'', None), (test_cond None ''yes'', ''@u1:hs'', None)]\<rparr>)"
proof -
  let ?y = "test_cond None ''yes''" and ?n = "test_cond None ''no''"
  have h1: "cache_id ?n = None" and h2: "cache_id ?y = None"
    by (simp_all add: test_defs step_defs)
  have h3: "test_matches ?y ''@u1:hs'' None = Inr True" and h4: "test_matches ?n ''@u1:hs'' None = Inr False"
    by (simp_all add: test_defs)
  have h5: "calls (test_state []) = []" by (simp add: test_defs)
  have e: "calls (snd (action_for_event_by_user test_externals test_event (test_filter [] [])
      (test_state two_users))) = [(test_cond (Some ''c1'') ''yes'', ''@u1:hs'', None)]"
    by (simp add: action_for_event_by_user_def test_externals_def test_filter_def test_event_def
        two_users_def test_defs step_defs)
  note a = cache_identifier_invoked_once [where x = test_externals and event = test_event
      and handler = "test_filter [] []" and st = "test_state two_users"
      and c = ?n and rest = "[?y]" and ev = test_matches and u = "''@u1:hs''" and dn = None
      and sa = "test_state []" and cs = "[?y, ?y]"]
  from a have a1: "id_calls ''c1'' (snd (action_for_event_by_user test_externals test_event
      (test_filter [] []) (test_state two_users))) \<le> 1" by blast
  from a h1 h4 have a2: "condition_checker test_matches [?n, ?y] ''@u1:hs'' None (test_state [])
      = (Inr False, log_call ?n ''@u1:hs'' None (test_state []))"
    by (simp del: condition_checker.simps)
  from a h2 h3 h5 have a3: "condition_checker test_matches [?y, ?y] ''@u1:hs'' None (test_state [])
      = (Inr True, (test_state [])\<lparr>calls := [(?y, ''@u1:hs'', None), (?y, ''@u1:hs'', None)]\<rparr>)"
    by (simp del: condition_checker.simps)
  show ?thesis using a1 e h1 a2 h2 h3 a3 by blast
qed

subsection \<open>The loop over the users\<close>

lemma users_loop_append:
  "users_loop ev f d before st = (Inr (), sa) \<Longrightarrow>
   users_loop ev f d (before @ rest) st = users_loop ev f d rest sa"
  by (induction before arbitrary: st)
    (auto simp: Let_def split: option.splits prod.splits sum.splits if_splits)


lemma actions_cache_put: "actions_by_user (cache_put c b st) = actions_by_user st"
  by (simp add: cache_put_def split: option.splits)

lemma actions_log_call: "actions_by_user (log_call c u dn st) = actions_by_user st"
  by (simp add: log_call_def)

lemma self_cache_put: "self (cache_put c b st) = self st"
  by (simp add: cache_put_def split: option.splits)

lemma self_log_call: "self (log_call c u dn st) = self st"
  by (simp add: log_call_def)

lemma condition_checker_frame:
  "condition_checker ev cs u dn st = (r, st') \<Longrightarrow>
   self st' = self st \<and> actions_by_user st' = actions_by_user st"
proof (induction cs arbitrary: st)
  case Nil
  then show ?case by simp
next
  case (Cons c cs)
  show ?case
  proof (cases "cache_get st c")
    case (Some b)
    with Cons show ?thesis by (cases b) auto
  next
    case None
    show ?thesis
    proof (cases "ev c u dn")
      case (Inl e)
      with None Cons.prems show ?thesis by (auto simp: self_log_call actions_log_call)
    next
      case (Inr b)
      let ?sa = "cache_put c b (log_call c u dn st)"
      have sa: "self ?sa = self st \<and> actions_by_user ?sa = actions_by_user st"
        by (simp add: self_cache_put self_log_call actions_cache_put actions_log_call)
      show ?thesis
      proof (cases b)
        case True
        with Inr None Cons.prems have "condition_checker ev cs u dn ?sa = (r, st')" by simp
        from Cons.IH [OF this] sa show ?thesis by simp
      next
        case False
        with Inr None Cons.prems sa show ?thesis by auto
      qed
    qed
  qed
qed

lemma condition_checker_actions:
  "condition_checker ev cs u dn st = (r, st') \<Longrightarrow> actions_by_user st' = actions_by_user st"
  by (simp add: condition_checker_frame)

lemma first_match_actions:
  "first_match ev rs u dn st = (r, st') \<Longrightarrow> actions_by_user st' = actions_by_user st"
proof (induction rs arbitrary: st)
  case Nil
  then show ?case by simp
next
  case (Cons a rs)
  show ?case
  proof (cases "rule_disabled a")
    case True
    with Cons show ?thesis by simp
  next
    case False
    obtain q sa where cc: "condition_checker ev (conditions a) u dn st = (q, sa)"
      by (cases "condition_checker ev (conditions a) u dn st")
    from condition_checker_actions [OF cc] have eq: "actions_by_user sa = actions_by_user st" .
    from False cc Cons.prems Cons.IH [of sa] eq show ?thesis
      by (auto split: sum.splits if_splits)
  qed
qed

text \<open>
  What the scan of a user's rules does ensure: the first rule that is not disabled and
  that the checker accepts ends the loop, and the user's entry is that rule's actions
  without \<open>dont_notify\<close> when this list is not empty, and is left as it was otherwise,
  whatever rules follow.
\<close>

lemma first_accepted_rule_wins:
  assumes "first_match ev pre u dn st = (Inr None, sa)"
    and "\<not> rule_disabled A"
    and "condition_checker ev (conditions A) u dn sa = (Inr True, sb)"
  shows "rules_loop ev (pre @ A # post) u dn st =
           (Inr (), sb\<lparr>actions_by_user :=
              (if strip_dont_notify (actions A) = [] then actions_by_user st
               else (actions_by_user st)(u \<mapsto> strip_dont_notify (actions A)))\<rparr>)"
proof -
  from first_match_actions [OF assms(1)] condition_checker_actions [OF assms(3)]
  have "actions_by_user sb = actions_by_user st" by simp
  then show ?thesis
    using rules_loop_winner [OF assms, of post] by (simp add: record_actions_def)
qed

lemma rules_loop_actions_other:
  assumes "rules_loop ev rs u dn st = (r, st')" and "v \<noteq> u"
  shows "actions_by_user st' v = actions_by_user st v"
proof -
  obtain q sa where fm: "first_match ev rs u dn st = (q, sa)"
    by (cases "first_match ev rs u dn st")
  from first_match_actions [OF fm] assms fm show ?thesis
    by (auto simp: rules_loop_first_match record_actions_def split: sum.splits option.splits)
qed

lemma users_loop_actions_other:
  "users_loop ev f d items st = (r, st') \<Longrightarrow> v \<notin> fst ` set items \<Longrightarrow>
   actions_by_user st' v = actions_by_user st v"
proof (induction items arbitrary: st)
  case Nil
  then show ?case by simp
next
  case (Cons it items)
  obtain u rs where it: "it = (u, rs)" by (cases it)
  with Cons.prems have ne: "v \<noteq> u" and notin: "v \<notin> fst ` set items" by auto
  show ?case
  proof (cases "f u")
    case None
    with it Cons.prems show ?thesis by simp
  next
    case (Some vis)
    show ?thesis
    proof (cases "vis = []")
      case True
      with Some it Cons.prems(1) Cons.IH [OF _ notin] show ?thesis by simp
    next
      case False
      obtain q sa where rl: "rules_loop ev rs u (d u) st = (q, sa)"
        by (cases "rules_loop ev rs u (d u) st")
      note keep = rules_loop_actions_other [OF rl ne]
      show ?thesis
      proof (cases q)
        case (Inl e)
        with False Some it rl Cons.prems(1) keep show ?thesis by auto
      next
        case (Inr m)
        with False Some it rl Cons.prems(1)
        have "users_loop ev f d items sa = (r, st')" by simp
        from Cons.IH [OF this notin] keep show ?thesis by simp
      qed
    qed
  qed
qed

lemma action_for_event_by_user_run:
  assumes "are_guests (store (self st)) (map fst (rules_by_user (self st))) = Inr users_dict"
    and "handler users_dict [event] = Inr f"
    and "get_state_for_event (store (self st)) (event_id event) = Inr member_state"
  shows "action_for_event_by_user x event handler st =
     (case users_loop (PushRuleEvaluatorForEvent x event (length (users_in_room (self st)))) f
             (collect_display_names x member_state Map.empty) (rules_by_user (self st))
             (st\<lparr>actions_by_user := Map.empty, calls := [], cache := Map.empty\<rparr>) of
        (Inl e, sc) \<Rightarrow> (Inl e, sc)
      | (Inr _, sc) \<Rightarrow> (Inr (actions_by_user sc), sc))"
  using assms by (simp add: action_for_event_by_user_def)


lemma strip_dont_notify_examples:
  "strip_dont_notify [ActStr ''dont_notify''] = []"
  "strip_dont_notify [ActStr ''notify'', ActStr ''dont_notify'', ActStr ''sound'']
     = [ActStr ''notify'', ActStr ''sound'']"
  by (simp_all add: strip_dont_notify_def)

lemma users_loop_winner_entry:
  assumes dist: "distinct (map fst (before @ (u, rules) # rest))"
    and vis: "f u = Some visible" "visible \<noteq> []"
    and init: "actions_by_user st u = None"
    and bef: "users_loop ev f d before st = (Inr (), sa)"
    and win: "first_match ev rules u (d u) sa = (Inr (Some w), sb)"
    and run: "users_loop ev f d (before @ (u, rules) # rest) st = (r, sc)"
  shows "actions_by_user sc u =
           (if strip_dont_notify (actions w) = [] then None
            else Some (strip_dont_notify (actions w)))"
proof -
  let ?acts = "strip_dont_notify (actions w)"
  let ?sb' = "record_actions u ?acts sb"
  from dist have nb: "u \<notin> fst ` set before" and nr: "u \<notin> fst ` set rest" by auto
  from users_loop_actions_other [OF bef nb] init have a: "actions_by_user sa u = None" by simp
  from first_match_actions [OF win] a have b: "actions_by_user sb u = None" by simp
  have rl: "rules_loop ev rules u (d u) sa = (Inr (), ?sb')"
    using win by (simp add: rules_loop_first_match)
  from run users_loop_append [OF bef, of "(u, rules) # rest"]
  have "users_loop ev f d ((u, rules) # rest) sa = (r, sc)" by simp
  with vis rl have "users_loop ev f d rest ?sb' = (r, sc)" by simp
  from users_loop_actions_other [OF this nr]
  have "actions_by_user sc u = actions_by_user ?sb' u" .
  with b show ?thesis by (simp add: record_actions_def)
qed

text \<open>
  C6. Post-processing of the actions. Let \<open>action_for_event_by_user\<close> succeed with
  \<open>result\<close>, let the user \<open>u\<close> of the rule-set mapping see the event, and let \<open>w\<close> be
  the winning rule of \<open>u\<close> (the rule at which the scan of \<open>u\<close>'s rules breaks, in the
  state \<open>sa\<close> that the users before \<open>u\<close> have left). Then \<open>u\<close>'s entry in \<open>result\<close> is
  the action list of \<open>w\<close> without any \<open>dont_notify\<close>, and \<open>u\<close> has an entry iff that
  list is not empty. In particular \<open>[dont_notify]\<close> gives no entry and
  \<open>[notify, dont_notify, sound]\<close> gives \<open>[notify, sound]\<close>.
\<close>

theorem winning_actions_recorded:
  assumes "are_guests (store (self st)) (map fst (rules_by_user (self st))) = Inr users_dict"
    and "handler users_dict [event] = Inr f"
    and "get_state_for_event (store (self st)) (event_id event) = Inr member_state"
    and "ev = PushRuleEvaluatorForEvent x event (length (users_in_room (self st)))"
    and "d = collect_display_names x member_state Map.empty"
    and "rules_by_user (self st) = before @ (u, rules) # rest"
    and "distinct (map fst (rules_by_user (self st)))"
    and "f u = Some visible" and "visible \<noteq> []"
    and "users_loop ev f d before
           (st\<lparr>actions_by_user := Map.empty, calls := [], cache := Map.empty\<rparr>) = (Inr (), sa)"
    and "first_match ev rules u (d u) sa = (Inr (Some w), sb)"
    and "action_for_event_by_user x event handler st = (Inr result, sc)"
  shows "result u =
           (if strip_dont_notify (actions w) = [] then None
            else Some (strip_dont_notify (actions w)))
         \<and> strip_dont_notify (actions w) = filter (\<lambda>a. a \<noteq> ActStr ''dont_notify'') (actions w)
         \<and> strip_dont_notify [ActStr ''dont_notify''] = []
         \<and> strip_dont_notify [ActStr ''notify'', ActStr ''dont_notify'', ActStr ''sound'']
             = [ActStr ''notify'', ActStr ''sound'']"
proof -
  let ?st0 = "st\<lparr>actions_by_user := Map.empty, calls := [], cache := Map.empty\<rparr>"
  obtain r where run: "users_loop ev f d (before @ (u, rules) # rest) ?st0 = (r, sc)"
    and res: "result = actions_by_user sc"
    using assms(12) assms(4,5,6)
    by (auto simp: action_for_event_by_user_run [where handler = handler and users_dict = users_dict and f = f, OF assms(1-3)] split: prod.splits sum.splits)
  have "actions_by_user sc u =
           (if strip_dont_notify (actions w) = [] then None
            else Some (strip_dont_notify (actions w)))"
    using users_loop_winner_entry [where f = f and u = u, OF _ assms(8,9) _ assms(10,11) run] assms(6,7) by simp
  with res show ?thesis
    by (simp add: strip_dont_notify_examples) (simp add: strip_dont_notify_def)
qed

theorem winning_actions_recorded_witness:
  "are_guests (store (self (test_state notify_users)))
      (map fst (rules_by_user (self (test_state notify_users))))
     = Inr [(''@u1:hs'', False), (''@u2:hs'', False)]
   \<and> test_filter [] [] [(''@u1:hs'', False), (''@u2:hs'', False)] [test_event] = Inr all_visible
   \<and> get_state_for_event (store (self (test_state notify_users))) (event_id test_event) = Inr []
   \<and> distinct (map fst (rules_by_user (self (test_state notify_users))))
   \<and> all_visible ''@u1:hs'' = Some [test_event] \<and> [test_event] \<noteq> []
   \<and> first_match test_matches
        [test_rule ''rA'' None [test_cond None ''yes'']
           [ActStr ''notify'', ActStr ''dont_notify'', ActStr ''sound'']]
        ''@u1:hs'' None (entry_state (test_state notify_users))
      = (Inr (Some (test_rule ''rA'' None [test_cond None ''yes'']
                     [ActStr ''notify'', ActStr ''dont_notify'', ActStr ''sound''])),
         log_call (test_cond None ''yes'') ''@u1:hs'' None (entry_state (test_state notify_users)))
   \<and> fst (action_for_event_by_user test_externals test_event (test_filter [] [])
         (test_state notify_users))
      = Inr [''@u1:hs'' \<mapsto> [ActStr ''notify'', ActStr ''sound'']]
   \<and> [''@u1:hs'' \<mapsto> [ActStr ''notify'', ActStr ''sound'']] ''@u1:hs''
      = Some [ActStr ''notify'', ActStr ''sound'']
   \<and> all_visible ''@u2:hs'' = Some [test_event]
   \<and> first_match test_matches [test_rule ''rB'' None [] [ActStr ''dont_notify'']] ''@u2:hs'' None
        (record_actions ''@u1:hs'' [ActStr ''notify'', ActStr ''sound'']
          (log_call (test_cond None ''yes'') ''@u1:hs'' None (entry_state (test_state notify_users))))
      = (Inr (Some (test_rule ''rB'' None [] [ActStr ''dont_notify''])),
         record_actions ''@u1:hs'' [ActStr ''notify'', ActStr ''sound'']
          (log_call (test_cond None ''yes'') ''@u1:hs'' None (entry_state (test_state notify_users))))
   \<and> [''@u1:hs'' \<mapsto> [ActStr ''notify'', ActStr ''sound'']] ''@u2:hs'' = None"
proof -
  let ?S = "test_state notify_users"
  let ?rA = "test_rule ''rA'' None [test_cond None ''yes'']
               [ActStr ''notify'', ActStr ''dont_notify'', ActStr ''sound'']"
  let ?rB = "test_rule ''rB'' None [] [ActStr ''dont_notify'']"
  let ?UD = "[(''@u1:hs'', False), (''@u2:hs'', False)]"
  let ?res = "[''@u1:hs'' \<mapsto> [ActStr ''notify'', ActStr ''sound'']]"
  let ?sb = "log_call (test_cond None ''yes'') ''@u1:hs'' None (entry_state ?S)"
  let ?ev = "PushRuleEvaluatorForEvent test_externals test_event (length (users_in_room (self ?S)))"
  let ?d = "collect_display_names test_externals [] Map.empty"
  have h1: "are_guests (store (self ?S)) (map fst (rules_by_user (self ?S))) = Inr ?UD"
    by (simp add: test_defs notify_users_def)
  have h2: "test_filter [] [] ?UD [test_event] = Inr all_visible"
    by (simp add: test_filter_def all_visible_def)
  have h3: "get_state_for_event (store (self ?S)) (event_id test_event) = Inr []"
    by (simp add: test_defs)
  have h4: "?ev = test_matches" by (simp add: test_externals_def)
  have h5: "?d ''@u1:hs'' = None" by simp
  have h6: "rules_by_user (self ?S) = [] @ (''@u1:hs'', [?rA]) # [(''@u2:hs'', [?rB])]"
    by (simp add: test_defs notify_users_def)
  have h7: "distinct (map fst (rules_by_user (self ?S)))"
    by (simp add: test_defs notify_users_def)
  have h8: "all_visible ''@u1:hs'' = Some [test_event]" by (simp add: all_visible_def)
  have h9: "[test_event] \<noteq> []" by simp
  have h10: "users_loop ?ev all_visible ?d []
      (?S\<lparr>actions_by_user := Map.empty, calls := [], cache := Map.empty\<rparr>) = (Inr (), entry_state ?S)"
    by (simp add: entry_state_def)
  have h11: "first_match test_matches [?rA] ''@u1:hs'' None (entry_state ?S) = (Inr (Some ?rA), ?sb)"
    by (simp add: test_defs step_defs entry_state_def)
  have h11': "first_match ?ev [?rA] ''@u1:hs'' (?d ''@u1:hs'') (entry_state ?S) = (Inr (Some ?rA), ?sb)"
    using h11 by (simp only: h4 h5)
  have h12: "fst (action_for_event_by_user test_externals test_event (test_filter [] []) ?S) = Inr ?res"
    by (simp add: afe_defs test_defs step_defs notify_users_def)
  then have h13: "action_for_event_by_user test_externals test_event (test_filter [] []) ?S
      = (Inr ?res, snd (action_for_event_by_user test_externals test_event (test_filter [] []) ?S))"
    by (metis prod.collapse)
  have h14: "strip_dont_notify (actions ?rA) = [ActStr ''notify'', ActStr ''sound'']"
    by (simp add: test_defs step_defs)
  note a = winning_actions_recorded [where handler = "test_filter [] []" and f = all_visible
      and u = "''@u1:hs''" and ev = ?ev and d = ?d and x = test_externals,
      OF h1 h2 h3 refl refl h6 h7 h8 h9 h10 h11' h13]
  from a [unfolded h14, THEN conjunct1]
  have c: "?res ''@u1:hs'' = Some [ActStr ''notify'', ActStr ''sound'']"
    by simp
  let ?sc = "record_actions ''@u1:hs'' [ActStr ''notify'', ActStr ''sound''] ?sb"
  have k5: "?d ''@u2:hs'' = None" by simp
  have k6: "rules_by_user (self ?S) = [(''@u1:hs'', [?rA])] @ (''@u2:hs'', [?rB]) # []"
    by (simp add: test_defs notify_users_def)
  have k8: "all_visible ''@u2:hs'' = Some [test_event]" by (simp add: all_visible_def)
  have k10: "users_loop ?ev all_visible ?d [(''@u1:hs'', [?rA])]
      (?S\<lparr>actions_by_user := Map.empty, calls := [], cache := Map.empty\<rparr>) = (Inr (), ?sc)"
    by (simp add: test_externals_def all_visible_def test_defs step_defs entry_state_def)
  have k11: "first_match test_matches [?rB] ''@u2:hs'' None ?sc = (Inr (Some ?rB), ?sc)"
    by (simp add: test_defs step_defs)
  have k11': "first_match ?ev [?rB] ''@u2:hs'' (?d ''@u2:hs'') ?sc = (Inr (Some ?rB), ?sc)"
    using k11 by (simp only: h4 k5)
  have k14: "strip_dont_notify (actions ?rB) = []" by (simp add: test_defs step_defs)
  note b = winning_actions_recorded [where handler = "test_filter [] []" and f = all_visible
      and u = "''@u2:hs''" and ev = ?ev and d = ?d and x = test_externals,
      OF h1 h2 h3 refl refl k6 h7 k8 h9 k10 k11' h13]
  from b [unfolded k14, THEN conjunct1] have c': "?res ''@u2:hs'' = None" by simp
  show ?thesis using h1 h2 h3 h7 h8 h9 h11 h12 c k8 k11 c' by blast
qed





subsection \<open>Failures\<close>

lemma calls_ok_raised: "calls_ok ev st \<Longrightarrow> raised ev r st"
  by (auto simp: calls_ok_def raised_def)

lemma calls_ok_record_actions: "calls_ok ev (record_actions u acts st) = calls_ok ev st"
  by (simp add: calls_ok_def record_actions_def)

lemma calls_ok_put:
  "calls_ok ev st \<Longrightarrow> ev c u dn = Inr b \<Longrightarrow> calls_ok ev (cache_put c b (log_call c u dn st))"
  by (auto simp: calls_ok_def calls_cache_put calls_log_call)

lemma condition_checker_raised:
  "calls_ok ev st \<Longrightarrow> condition_checker ev cs u dn st = (r, st') \<Longrightarrow>
   raised ev r st' \<and> (\<not> isl r \<longrightarrow> calls_ok ev st')"
proof (induction cs arbitrary: st)
  case Nil
  then show ?case by (auto simp: calls_ok_raised)
next
  case (Cons c cs)
  show ?case
  proof (cases "cache_get st c")
    case (Some b)
    with Cons show ?thesis by (cases b) (auto simp: calls_ok_raised)
  next
    case None
    show ?thesis
    proof (cases "ev c u dn")
      case (Inl e)
      with None Cons.prems(2) have "r = Inl e" and "st' = log_call c u dn st" by simp_all
      with Cons.prems(1) Inl show ?thesis
        by (auto simp: raised_def calls_ok_def calls_log_call)
    next
      case (Inr b)
      note ok = calls_ok_put [OF Cons.prems(1) Inr]
      show ?thesis
      proof (cases b)
        case True
        with Inr None Cons.prems(2)
        have "condition_checker ev cs u dn (cache_put c b (log_call c u dn st)) = (r, st')"
          by simp
        from Cons.IH [OF ok this] show ?thesis .
      next
        case False
        with Inr None Cons.prems(2) ok show ?thesis by (auto simp: calls_ok_raised)
      qed
    qed
  qed
qed

lemma raised_Inl: "raised ev (Inl e :: error + bool) st \<Longrightarrow> raised ev (Inl e :: error + 'a) st"
  by (auto simp: raised_def)

lemma rules_loop_raised:
  "calls_ok ev st \<Longrightarrow> rules_loop ev rs u dn st = (r, st') \<Longrightarrow>
   raised ev r st' \<and> (\<not> isl r \<longrightarrow> calls_ok ev st')"
proof (induction rs arbitrary: st)
  case Nil
  then show ?case by (auto simp: calls_ok_raised)
next
  case (Cons a rs)
  show ?case
  proof (cases "rule_disabled a")
    case True
    with Cons show ?thesis by simp
  next
    case False
    obtain q sa where cc: "condition_checker ev (conditions a) u dn st = (q, sa)"
      by (cases "condition_checker ev (conditions a) u dn st")
    note inv = condition_checker_raised [OF Cons.prems(1) cc]
    show ?thesis
    proof (cases q)
      case (Inl e)
      with False cc Cons.prems(2) inv show ?thesis by (auto intro: raised_Inl)
    next
      case (Inr m)
      with inv have ok: "calls_ok ev sa" by simp
      show ?thesis
      proof (cases m)
        case True
        with Inr False cc Cons.prems(2) ok show ?thesis
          by (auto simp: calls_ok_record_actions intro: calls_ok_raised)
      next
        case f: False
        with Inr False cc Cons.prems(2) have "rules_loop ev rs u dn sa = (r, st')" by simp
        from Cons.IH [OF ok this] show ?thesis .
      qed
    qed
  qed
qed

lemma users_loop_raised:
  "calls_ok ev st \<Longrightarrow> users_loop ev f d items st = (r, st') \<Longrightarrow> raised ev r st'"
proof (induction items arbitrary: st)
  case Nil
  then show ?case by (auto simp: calls_ok_raised)
next
  case (Cons it items)
  obtain u rs where it: "it = (u, rs)" by (cases it)
  show ?case
  proof (cases "f u")
    case None
    with it Cons.prems show ?thesis by (auto simp: calls_ok_raised)
  next
    case (Some vis)
    show ?thesis
    proof (cases "vis = []")
      case True
      with Some it Cons show ?thesis by simp
    next
      case False
      obtain q sa where rl: "rules_loop ev rs u (d u) st = (q, sa)"
        by (cases "rules_loop ev rs u (d u) st")
      note inv = rules_loop_raised [OF Cons.prems(1) rl]
      show ?thesis
      proof (cases q)
        case (Inl e)
        with False Some it rl Cons.prems(2) inv show ?thesis by auto
      next
        case (Inr m)
        with False Some it rl Cons.prems(2)
        have "users_loop ev f d items sa = (r, st')" by simp
        moreover from inv Inr have "calls_ok ev sa" by simp
        ultimately show ?thesis using Cons.IH by blast
      qed
    qed
  qed
qed

lemma action_for_event_by_user_raised:
  assumes "(c, v, dn) \<in> set (calls (snd (action_for_event_by_user x event handler st)))"
    and "PushRuleEvaluatorForEvent x event (length (users_in_room (self st))) c v dn = Inl e"
  shows "fst (action_for_event_by_user x event handler st) = Inl e"
proof -
  let ?ev = "PushRuleEvaluatorForEvent x event (length (users_in_room (self st)))"
  let ?st0 = "st\<lparr>actions_by_user := Map.empty, calls := [], cache := Map.empty\<rparr>"
  have ok: "calls_ok ?ev ?st0" by (simp add: calls_ok_def)
  have run: "users_loop ?ev f dm items ?st0 = (q, sc) \<Longrightarrow> (c, v, dn) \<in> set (calls sc) \<Longrightarrow> q = Inl e"
    for f dm items q sc
    using users_loop_raised [OF ok, of f dm items q sc] assms(2) by (auto simp: raised_def)
  from assms(1) show ?thesis
    by (auto simp: action_for_event_by_user_def Let_def split: sum.splits prod.splits dest: run)
qed

lemma decode_rule_json_fails:
  "loads_conditions x (row_conditions row) = Inl e \<or>
   (\<not> isl (loads_conditions x (row_conditions row)) \<and> loads_actions x (row_actions row) = Inl e)
   \<longleftrightarrow> decode_rule_json x row = Inl e"
  by (auto simp: decode_rule_json_def split: sum.splits)

lemma decode_rule_json_isl:
  "isl (decode_rule_json x row) \<longleftrightarrow>
   isl (loads_conditions x (row_conditions row)) \<or> isl (loads_actions x (row_actions row))"
  by (auto simp: decode_rule_json_def split: sum.splits)

lemma decode_rows_isl:
  "isl (decode_rows x rows) \<longleftrightarrow> (\<exists>row \<in> set rows. isl (decode_rule_json x row))"
  by (induction rows) (auto split: sum.splits)

lemma decode_rows_error:
  "decode_rows x rows = Inl e \<Longrightarrow> \<exists>row \<in> set rows. decode_rule_json x row = Inl e"
  by (induction rows) (auto split: sum.splits)

lemma decode_rows_all:
  "decode_rows x rows = Inr rs \<Longrightarrow> map (decode_rule_json x) rows = map Inr rs"
  by (induction rows arbitrary: rs) (auto split: sum.splits)

lemma rules_for_users_isl:
  "isl (rules_for_users x stored us) \<longleftrightarrow>
   (\<exists>u \<in> set us. \<exists>row \<in> set (stored_rows stored u). isl (decode_rule_json x row))"
proof (induction us)
  case Nil
  show ?case by simp
next
  case (Cons a us)
  have "isl (rules_for_users x stored (a # us)) \<longleftrightarrow>
      isl (decode_rows x (stored_rows stored a)) \<or> isl (rules_for_users x stored us)"
    by (auto split: sum.splits)
  with Cons.IH show ?case by (auto simp: decode_rows_isl)
qed

lemma rules_for_users_error:
  "rules_for_users x stored us = Inl e \<Longrightarrow>
   \<exists>u \<in> set us. \<exists>row \<in> set (stored_rows stored u). decode_rule_json x row = Inl e"
proof (induction us)
  case Nil
  then show ?case by simp
next
  case (Cons u us)
  show ?case
  proof (cases "decode_rows x (stored_rows stored u)")
    case (Inl e')
    with Cons.prems have "e' = e" by simp
    with Inl decode_rows_error [of x "stored_rows stored u" e] show ?thesis by auto
  next
    case (Inr rs)
    with Cons.prems have "rules_for_users x stored us = Inl e"
      by (auto split: sum.splits)
    with Cons.IH show ?thesis by auto
  qed
qed

lemma rules_for_users_keys:
  "rules_for_users x stored us = Inr m \<Longrightarrow> map fst m = us"
  by (induction us arbitrary: m) (auto split: sum.splits)

text \<open>
  C8. Failures propagate. Loading: a failure of \<open>bulk_get_push_rules\<close> or of
  \<open>get_users_in_room\<close> is the result of \<open>_get_rules\<close> and \<open>evaluator_for_room_id\<close>; if
  the condition list or the action list of any stored row of any requested user does
  not decode, \<open>_get_rules\<close> fails, the error it fails with is one a decoder raised, and
  \<open>evaluator_for_room_id\<close> fails with it; when \<open>_get_rules\<close> succeeds, its mapping has
  every requested user. Evaluation: a failure of \<open>are_guests\<close>, of the visibility
  filter or of \<open>get_state_for_event\<close> is the result of \<open>action_for_event_by_user\<close>, and
  so is what any invocation of the condition evaluator made during the call has
  raised. The result is either an error or a value, never both.
\<close>

theorem failures_propagate:
  "(bulk_get_push_rules s us = Inl e \<longrightarrow> get_rules x rid us s = Inl e)
   \<and> (bulk_get_push_rules s us = Inr stored \<longrightarrow> u \<in> set us \<longrightarrow> row \<in> set (stored_rows stored u) \<longrightarrow>
        (isl (loads_conditions x (row_conditions row)) \<or> isl (loads_actions x (row_actions row))) \<longrightarrow>
        isl (get_rules x rid us s))
   \<and> (bulk_get_push_rules s us = Inr stored \<longrightarrow> get_rules x rid us s = Inl e \<longrightarrow>
        (\<exists>u \<in> set us. \<exists>row \<in> set (stored_rows stored u).
           loads_conditions x (row_conditions row) = Inl e \<or>
           loads_actions x (row_actions row) = Inl e))
   \<and> (get_rules x rid us s = Inr m \<longrightarrow> map fst m = us)
   \<and> (get_users_in_room s rid = Inl e \<longrightarrow> evaluator_for_room_id x rid s = Inl e)
   \<and> (get_users_in_room s rid = Inr us \<longrightarrow> get_rules x rid us s = Inl e \<longrightarrow>
        evaluator_for_room_id x rid s = Inl e)
   \<and> (are_guests (store (self st)) (map fst (rules_by_user (self st))) = Inl e \<longrightarrow>
        fst (action_for_event_by_user x event handler st) = Inl e)
   \<and> (are_guests (store (self st)) (map fst (rules_by_user (self st))) = Inr users_dict \<longrightarrow>
        handler users_dict [event] = Inl e \<longrightarrow>
        fst (action_for_event_by_user x event handler st) = Inl e)
   \<and> (are_guests (store (self st)) (map fst (rules_by_user (self st))) = Inr users_dict \<longrightarrow>
        handler users_dict [event] = Inr f \<longrightarrow>
        get_state_for_event (store (self st)) (event_id event) = Inl e \<longrightarrow>
        fst (action_for_event_by_user x event handler st) = Inl e)
   \<and> ((c, v, dn) \<in> set (calls (snd (action_for_event_by_user x event handler st))) \<longrightarrow>
        PushRuleEvaluatorForEvent x event (length (users_in_room (self st))) c v dn = Inl e \<longrightarrow>
        fst (action_for_event_by_user x event handler st) = Inl e)"
proof (intro conjI impI)
  assume "bulk_get_push_rules s us = Inl e"
  then show "get_rules x rid us s = Inl e" by (simp add: get_rules_def)
next
  assume "bulk_get_push_rules s us = Inr stored" "u \<in> set us" "row \<in> set (stored_rows stored u)"
    "isl (loads_conditions x (row_conditions row)) \<or> isl (loads_actions x (row_actions row))"
  then show "isl (get_rules x rid us s)"
    by (auto simp: get_rules_def rules_for_users_isl decode_rule_json_isl)
next
  assume "bulk_get_push_rules s us = Inr stored" "get_rules x rid us s = Inl e"
  then have "rules_for_users x stored us = Inl e" by (simp add: get_rules_def)
  from rules_for_users_error [OF this]
  obtain u row where "u \<in> set us" "row \<in> set (stored_rows stored u)" "decode_rule_json x row = Inl e"
    by blast
  then show "\<exists>u \<in> set us. \<exists>row \<in> set (stored_rows stored u).
      loads_conditions x (row_conditions row) = Inl e \<or> loads_actions x (row_actions row) = Inl e"
    using decode_rule_json_fails [of x row e] by blast
next
  assume "get_rules x rid us s = Inr m"
  then show "map fst m = us"
    by (auto simp: get_rules_def rules_for_users_keys split: sum.splits)
next
  assume "get_users_in_room s rid = Inl e"
  then show "evaluator_for_room_id x rid s = Inl e" by (simp add: evaluator_for_room_id_def)
next
  assume "get_users_in_room s rid = Inr us" "get_rules x rid us s = Inl e"
  then show "evaluator_for_room_id x rid s = Inl e" by (simp add: evaluator_for_room_id_def)
next
  assume "are_guests (store (self st)) (map fst (rules_by_user (self st))) = Inl e"
  then show "fst (action_for_event_by_user x event handler st) = Inl e"
    by (simp add: action_for_event_by_user_def)
next
  assume "are_guests (store (self st)) (map fst (rules_by_user (self st))) = Inr users_dict"
    "handler users_dict [event] = Inl e"
  then show "fst (action_for_event_by_user x event handler st) = Inl e"
    by (simp add: action_for_event_by_user_def)
next
  assume "are_guests (store (self st)) (map fst (rules_by_user (self st))) = Inr users_dict"
    "handler users_dict [event] = Inr f"
    "get_state_for_event (store (self st)) (event_id event) = Inl e"
  then show "fst (action_for_event_by_user x event handler st) = Inl e"
    by (simp add: action_for_event_by_user_def)
next
  assume "(c, v, dn) \<in> set (calls (snd (action_for_event_by_user x event handler st)))"
    "PushRuleEvaluatorForEvent x event (length (users_in_room (self st))) c v dn = Inl e"
  then show "fst (action_for_event_by_user x event handler st) = Inl e"
    by (rule action_for_event_by_user_raised)
qed

theorem failures_propagate_witness:
  "bulk_get_push_rules (failing_store ''bulk_get_push_rules'') [''@u1:hs'']
     = Inl (StorageError ''bulk_get_push_rules'')
   \<and> get_rules test_externals ''!room:hs'' [''@u1:hs''] (failing_store ''bulk_get_push_rules'')
     = Inl (StorageError ''bulk_get_push_rules'')
   \<and> bulk_get_push_rules (failing_store []) [''@u2:hs'', ''@u1:hs'']
     = Inr [''@u1:hs'' \<mapsto> [bad_row]]
   \<and> ''@u1:hs'' \<in> set [''@u2:hs'', ''@u1:hs'']
   \<and> bad_row \<in> set (stored_rows [''@u1:hs'' \<mapsto> [bad_row]] ''@u1:hs'')
   \<and> isl (loads_actions test_externals (row_actions bad_row))
   \<and> isl (get_rules test_externals ''!room:hs'' [''@u2:hs'', ''@u1:hs''] (failing_store []))
   \<and> get_rules test_externals ''!room:hs'' [''@u2:hs'', ''@u1:hs''] (failing_store [])
     = Inl (DecodeError ''{oops'')
   \<and> loads_actions test_externals (row_actions bad_row) = Inl (DecodeError ''{oops'')
   \<and> get_rules test_externals ''!room:hs'' [''@u1:hs'', ''@u2:hs''] test_store
     = Inr [(''@u1:hs'', []), (''@u2:hs'', [])]
   \<and> map fst [(''@u1:hs'', [] :: rule list), (''@u2:hs'', [])] = [''@u1:hs'', ''@u2:hs'']
   \<and> get_users_in_room (failing_store ''get_users_in_room'') ''!room:hs''
     = Inl (StorageError ''get_users_in_room'')
   \<and> evaluator_for_room_id test_externals ''!room:hs'' (failing_store ''get_users_in_room'')
     = Inl (StorageError ''get_users_in_room'')
   \<and> get_users_in_room (failing_store []) ''!room:hs'' = Inr [''@u1:hs'', ''@u2:hs'']
   \<and> get_rules test_externals ''!room:hs'' [''@u1:hs'', ''@u2:hs''] (failing_store [])
     = Inl (DecodeError ''{oops'')
   \<and> evaluator_for_room_id test_externals ''!room:hs'' (failing_store [])
     = Inl (DecodeError ''{oops'')
   \<and> are_guests (store (self (failing_state ''are_guests'')))
        (map fst (rules_by_user (self (failing_state ''are_guests''))))
     = Inl (StorageError ''are_guests'')
   \<and> fst (action_for_event_by_user test_externals test_event (test_filter [] [])
        (failing_state ''are_guests'')) = Inl (StorageError ''are_guests'')
   \<and> are_guests (store (self (test_state two_users)))
        (map fst (rules_by_user (self (test_state two_users))))
     = Inr [(''@u1:hs'', False), (''@u2:hs'', False)]
   \<and> failing_filter [(''@u1:hs'', False), (''@u2:hs'', False)] [test_event]
     = Inl (FilterError ''filter'')
   \<and> fst (action_for_event_by_user test_externals test_event failing_filter
        (test_state two_users)) = Inl (FilterError ''filter'')
   \<and> are_guests (store (self (failing_state ''get_state_for_event'')))
        (map fst (rules_by_user (self (failing_state ''get_state_for_event''))))
     = Inr [(''@u1:hs'', False), (''@u2:hs'', False)]
   \<and> test_filter [] [] [(''@u1:hs'', False), (''@u2:hs'', False)] [test_event] = Inr all_visible
   \<and> get_state_for_event (store (self (failing_state ''get_state_for_event'')))
        (event_id test_event) = Inl (StorageError ''get_state_for_event'')
   \<and> fst (action_for_event_by_user test_externals test_event (test_filter [] [])
        (failing_state ''get_state_for_event'')) = Inl (StorageError ''get_state_for_event'')
   \<and> (test_cond None ''boom'', ''@u1:hs'', None)
        \<in> set (calls (snd (action_for_event_by_user test_externals test_event (test_filter [] [])
              (test_state boom_users))))
   \<and> PushRuleEvaluatorForEvent test_externals test_event
        (length (users_in_room (self (test_state boom_users))))
        (test_cond None ''boom'') ''@u1:hs'' None = Inl (EvaluatorError ''boom'')
   \<and> fst (action_for_event_by_user test_externals test_event (test_filter [] [])
        (test_state boom_users)) = Inl (EvaluatorError ''boom'')"
proof -
  let ?x = test_externals and ?rid = "''!room:hs''"
  let ?UD = "[(''@u1:hs'', False), (''@u2:hs'', False)]"
  let ?stored = "[''@u1:hs'' \<mapsto> [bad_row]]"
  have a1: "bulk_get_push_rules (failing_store ''bulk_get_push_rules'') [''@u1:hs'']
      = Inl (StorageError ''bulk_get_push_rules'')"
    by (simp add: fail_defs)
  have b1: "bulk_get_push_rules (failing_store []) [''@u2:hs'', ''@u1:hs''] = Inr ?stored"
    by (simp add: fail_defs)
  have b2: "''@u1:hs'' \<in> set [''@u2:hs'', ''@u1:hs'']" by simp
  have b3: "bad_row \<in> set (stored_rows ?stored ''@u1:hs'')" by (simp add: stored_rows_def)
  have b4: "isl (loads_actions ?x (row_actions bad_row))"
    by (simp add: fail_defs test_externals_def)
  have c1: "get_rules ?x ?rid [''@u2:hs'', ''@u1:hs''] (failing_store []) = Inl (DecodeError ''{oops'')"
    by (simp add: get_rules_def decode_rule_json_def stored_rows_def fail_defs test_externals_def)
  have c2: "loads_actions ?x (row_actions bad_row) = Inl (DecodeError ''{oops'')"
    by (simp add: fail_defs test_externals_def)
  have d1: "get_rules ?x ?rid [''@u1:hs'', ''@u2:hs''] test_store = Inr [(''@u1:hs'', []), (''@u2:hs'', [])]"
    by (simp add: get_rules_def stored_rows_def test_defs test_externals_def)
  have e1: "get_users_in_room (failing_store ''get_users_in_room'') ?rid
      = Inl (StorageError ''get_users_in_room'')"
    by (simp add: fail_defs)
  have f1: "get_users_in_room (failing_store []) ?rid = Inr [''@u1:hs'', ''@u2:hs'']"
    by (simp add: fail_defs)
  have f2: "get_rules ?x ?rid [''@u1:hs'', ''@u2:hs''] (failing_store []) = Inl (DecodeError ''{oops'')"
    by (simp add: get_rules_def decode_rule_json_def stored_rows_def fail_defs test_externals_def)
  have g1: "are_guests (store (self (failing_state ''are_guests'')))
      (map fst (rules_by_user (self (failing_state ''are_guests'')))) = Inl (StorageError ''are_guests'')"
    by (simp add: fail_defs)
  have h1: "are_guests (store (self (test_state two_users)))
      (map fst (rules_by_user (self (test_state two_users)))) = Inr ?UD"
    by (simp add: test_defs two_users_def)
  have h2: "failing_filter ?UD [test_event] = Inl (FilterError ''filter'')"
    by (simp add: fail_defs)
  have i1: "are_guests (store (self (failing_state ''get_state_for_event'')))
      (map fst (rules_by_user (self (failing_state ''get_state_for_event'')))) = Inr ?UD"
    by (simp add: fail_defs two_users_def)
  have i2: "test_filter [] [] ?UD [test_event] = Inr all_visible"
    by (simp add: test_filter_def all_visible_def)
  have i3: "get_state_for_event (store (self (failing_state ''get_state_for_event'')))
      (event_id test_event) = Inl (StorageError ''get_state_for_event'')"
    by (simp add: fail_defs)
  have j1: "(test_cond None ''boom'', ''@u1:hs'', None)
      \<in> set (calls (snd (action_for_event_by_user ?x test_event (test_filter [] [])
            (test_state boom_users))))"
    by (simp add: afe_defs test_defs step_defs boom_users_def)
  have j2: "PushRuleEvaluatorForEvent ?x test_event
      (length (users_in_room (self (test_state boom_users))))
      (test_cond None ''boom'') ''@u1:hs'' None = Inl (EvaluatorError ''boom'')"
    by (simp add: test_externals_def test_defs)
  note t1 = failures_propagate [where s = "failing_store ''bulk_get_push_rules''"
      and us = "[''@u1:hs'']" and e = "StorageError ''bulk_get_push_rules''" and x = ?x and rid = ?rid]
  note t2 = failures_propagate [where s = "failing_store []" and us = "[''@u2:hs'', ''@u1:hs'']"
      and stored = ?stored and u = "''@u1:hs''" and row = bad_row and x = ?x and rid = ?rid
      and e = "DecodeError ''{oops''"]
  note t4 = failures_propagate [where s = test_store and us = "[''@u1:hs'', ''@u2:hs'']"
      and x = ?x and rid = ?rid and m = "[(''@u1:hs'', []), (''@u2:hs'', [])]"]
  note t5 = failures_propagate [where s = "failing_store ''get_users_in_room''" and x = ?x
      and rid = ?rid and e = "StorageError ''get_users_in_room''"]
  note t6 = failures_propagate [where s = "failing_store []" and x = ?x and rid = ?rid
      and us = "[''@u1:hs'', ''@u2:hs'']" and e = "DecodeError ''{oops''"]
  note t7 = failures_propagate [where st = "failing_state ''are_guests''" and x = ?x
      and event = test_event and handler = "test_filter [] []" and e = "StorageError ''are_guests''"]
  note t8 = failures_propagate [where st = "test_state two_users" and x = ?x
      and event = test_event and handler = failing_filter and users_dict = ?UD
      and e = "FilterError ''filter''"]
  note t9 = failures_propagate [where st = "failing_state ''get_state_for_event''" and x = ?x
      and event = test_event and handler = "test_filter [] []" and users_dict = ?UD
      and f = all_visible and e = "StorageError ''get_state_for_event''"]
  note t10 = failures_propagate [where st = "test_state boom_users" and x = ?x
      and event = test_event and handler = "test_filter [] []"
      and c = "test_cond None ''boom''" and v = "''@u1:hs''" and dn = None
      and e = "EvaluatorError ''boom''"]
  from t1 a1 have r1: "get_rules ?x ?rid [''@u1:hs''] (failing_store ''bulk_get_push_rules'')
      = Inl (StorageError ''bulk_get_push_rules'')" by blast
  from t2 b1 b2 b3 b4
  have r2: "isl (get_rules ?x ?rid [''@u2:hs'', ''@u1:hs''] (failing_store []))" by blast
  have r4: "map fst [(''@u1:hs'', [] :: rule list), (''@u2:hs'', [])] = [''@u1:hs'', ''@u2:hs'']"
    using t4 d1 by blast
  from t5 e1 have r5: "evaluator_for_room_id ?x ?rid (failing_store ''get_users_in_room'')
      = Inl (StorageError ''get_users_in_room'')" by blast
  from t6 f1 f2 have r6: "evaluator_for_room_id ?x ?rid (failing_store [])
      = Inl (DecodeError ''{oops'')" by blast
  from t7 g1 have r7: "fst (action_for_event_by_user ?x test_event (test_filter [] [])
      (failing_state ''are_guests'')) = Inl (StorageError ''are_guests'')" by blast
  from t8 h1 h2 have r8: "fst (action_for_event_by_user ?x test_event failing_filter
      (test_state two_users)) = Inl (FilterError ''filter'')" by blast
  from t9 i1 i2 i3 have r9: "fst (action_for_event_by_user ?x test_event (test_filter [] [])
      (failing_state ''get_state_for_event'')) = Inl (StorageError ''get_state_for_event'')" by blast
  from t10 j1 j2 have r10: "fst (action_for_event_by_user ?x test_event (test_filter [] [])
      (test_state boom_users)) = Inl (EvaluatorError ''boom'')" by blast
  show ?thesis
    using a1 r1 b1 b2 b3 b4 r2 c1 c2 d1 r4 e1 r5 f1 f2 r6 g1 r7 h1 h2 r8 i1 i2 i3 r9 j1 j2 r10
    by blast
qed

subsection \<open>The evaluator object\<close>

lemma self_record_actions: "self (record_actions u acts st) = self st"
  by (simp add: record_actions_def)

lemma first_match_self:
  "first_match ev rs u dn st = (r, st') \<Longrightarrow> self st' = self st"
proof (induction rs arbitrary: st)
  case Nil
  then show ?case by simp
next
  case (Cons a rs)
  show ?case
  proof (cases "rule_disabled a")
    case True
    with Cons show ?thesis by simp
  next
    case False
    obtain q sa where cc: "condition_checker ev (conditions a) u dn st = (q, sa)"
      by (cases "condition_checker ev (conditions a) u dn st")
    from condition_checker_frame [OF cc] have eq: "self sa = self st" by simp
    from False cc Cons.prems Cons.IH [of sa] eq show ?thesis
      by (auto split: sum.splits if_splits)
  qed
qed

lemma rules_loop_self:
  assumes "rules_loop ev rs u dn st = (r, st')"
  shows "self st' = self st"
proof -
  obtain q sa where fm: "first_match ev rs u dn st = (q, sa)"
    by (cases "first_match ev rs u dn st")
  from first_match_self [OF fm] assms fm show ?thesis
    by (auto simp: rules_loop_first_match self_record_actions split: sum.splits option.splits)
qed

lemma users_loop_self:
  "users_loop ev f d items st = (r, st') \<Longrightarrow> self st' = self st"
proof (induction items arbitrary: st)
  case Nil
  then show ?case by simp
next
  case (Cons it items)
  obtain u rs where it: "it = (u, rs)" by (cases it)
  show ?case
  proof (cases "f u")
    case None
    with it Cons.prems show ?thesis by simp
  next
    case (Some vis)
    show ?thesis
    proof (cases "vis = []")
      case True
      with Some it Cons show ?thesis by simp
    next
      case False
      obtain q sa where rl: "rules_loop ev rs u (d u) st = (q, sa)"
        by (cases "rules_loop ev rs u (d u) st")
      note keep = rules_loop_self [OF rl]
      show ?thesis
      proof (cases q)
        case (Inl e)
        with False Some it rl Cons.prems keep show ?thesis by auto
      next
        case (Inr m)
        with False Some it rl Cons.prems
        have "users_loop ev f d items sa = (r, st')" by simp
        from Cons.IH [OF this] keep show ?thesis by simp
      qed
    qed
  qed
qed

lemma action_for_event_by_user_self:
  "self (snd (action_for_event_by_user x event handler st)) = self st"
proof -
  let ?st0 = "st\<lparr>actions_by_user := Map.empty, calls := [], cache := Map.empty\<rparr>"
  have run: "users_loop ev f dm items ?st0 = (q, sc) \<Longrightarrow> self sc = self st" for ev f dm items q sc
    using users_loop_self [of ev f dm items ?st0 q sc] by simp
  show ?thesis
    by (auto simp: action_for_event_by_user_def Let_def split: sum.splits prod.splits dest: run)
qed

lemma action_for_event_by_user_locals:
  "fst (action_for_event_by_user x event handler st) =
   fst (action_for_event_by_user x event handler
          \<lparr>self = self st, actions_by_user = Map.empty, cache = Map.empty, calls = []\<rparr>)"
  by (cases st) (auto simp: action_for_event_by_user_def Let_def split: sum.splits prod.splits)

text \<open>
  C10. Frame. \<open>action_for_event_by_user\<close> leaves the evaluator object as it was,
  however the call ends: \<open>room_id\<close>, \<open>rules_by_user\<close> (with every rule's conditions and
  actions), \<open>users_in_room\<close> and \<open>store\<close> are the same before and after. Its result
  depends on the object only, not on what the local dicts or the log held before: the
  cache and the actions map are created empty by each call. So the result of a second
  call is what it would have been without the first.
\<close>

theorem evaluator_state_unchanged:
  "self (snd (action_for_event_by_user x event handler st)) = self st
   \<and> (self st' = self st \<longrightarrow>
        fst (action_for_event_by_user x event handler st') =
        fst (action_for_event_by_user x event handler st))
   \<and> fst (action_for_event_by_user x event' handler'
            (snd (action_for_event_by_user x event handler st))) =
       fst (action_for_event_by_user x event' handler' st)"
proof (intro conjI impI)
  show "self (snd (action_for_event_by_user x event handler st)) = self st"
    by (rule action_for_event_by_user_self)
next
  assume "self st' = self st"
  then show "fst (action_for_event_by_user x event handler st') =
        fst (action_for_event_by_user x event handler st)"
    using action_for_event_by_user_locals [of x event handler st]
      action_for_event_by_user_locals [of x event handler st'] by simp
next
  show "fst (action_for_event_by_user x event' handler'
            (snd (action_for_event_by_user x event handler st))) =
       fst (action_for_event_by_user x event' handler' st)"
    using action_for_event_by_user_locals [of x event' handler' st]
      action_for_event_by_user_locals [of x event' handler'
        "snd (action_for_event_by_user x event handler st)"]
    by (simp add: action_for_event_by_user_self)
qed

theorem evaluator_state_unchanged_witness:
  "self (snd (action_for_event_by_user test_externals test_event (test_filter [] []) stale_state))
     = self stale_state
   \<and> self stale_state = self (test_state two_users)
   \<and> fst (action_for_event_by_user test_externals test_event (test_filter [] []) stale_state)
     = fst (action_for_event_by_user test_externals test_event (test_filter [] [])
         (test_state two_users))
   \<and> fst (action_for_event_by_user test_externals test_event (test_filter [] [])
         (test_state two_users))
     = Inr [''@u1:hs'' \<mapsto> [ActStr ''notify''], ''@u2:hs'' \<mapsto> [ActStr ''sound'']]
   \<and> fst (action_for_event_by_user test_externals test_event (test_filter [''@u2:hs''] [])
         (snd (action_for_event_by_user test_externals test_event (test_filter [] []) stale_state)))
     = fst (action_for_event_by_user test_externals test_event (test_filter [''@u2:hs''] [])
         stale_state)"
proof -
  have h1: "self stale_state = self (test_state two_users)"
    by (simp add: stale_state_def)
  have h2: "fst (action_for_event_by_user test_externals test_event (test_filter [] [])
         (test_state two_users))
     = Inr [''@u1:hs'' \<mapsto> [ActStr ''notify''], ''@u2:hs'' \<mapsto> [ActStr ''sound'']]"
    by (simp add: afe_defs test_defs step_defs two_users_def)
  note a = evaluator_state_unchanged [where x = test_externals and event = test_event
      and handler = "test_filter [] []" and st = stale_state and event' = test_event
      and handler' = "test_filter [''@u2:hs''] []"]
  note b = evaluator_state_unchanged [where x = test_externals and event = test_event
      and handler = "test_filter [] []" and st = "test_state two_users" and st' = stale_state]
  show ?thesis using a b h1 h2 by blast
qed

end
